theory Spec2Isabelle
  imports Complex_Main "HOL-Library.Multiset"
begin

section \<open>Numbers, faults and the static tables\<close>

text \<open>
  The program computes with Python floats and NumPy \<^verbatim>\<open>float64\<close> arrays. A float is
  embedded as the real number it stands for, and every arithmetic operation of the source
  on floats is the exact operation on reals followed by a rounding operator \<open>rnd\<close>,
  which every modelled function takes as its first argument. The operator of the program
  is \<open>f64\<close>, IEEE 754 binary64 with rounding to nearest, ties to even; \<open>exact\<close> is the
  arithmetic without rounding. Negation, \<^verbatim>\<open>abs\<close>, \<^verbatim>\<open>min\<close>, \<^verbatim>\<open>max\<close> and comparisons
  are exact in any float arithmetic and are not rounded; neither is the conversion of the
  small integers of the program. A decimal literal such as \<^verbatim>\<open>0.9\<close> is the decimal
  rounded. Every exception the interpreter can raise in the modelled functions is a value
  of \<open>fault\<close>.
\<close>

datatype fault = KeyError | IndexError | ValueError | ZeroDivisionError

text \<open>An event is the tuple \<^verbatim>\<open>(name, dur, start)\<close> of the source.\<close>

type_synonym event = "string \<times> real \<times> real"

definition ev_name :: "event \<Rightarrow> string" where
  "ev_name e = fst e"

definition ev_dur :: "event \<Rightarrow> real" where
  "ev_dur e = fst (snd e)"

definition ev_start :: "event \<Rightarrow> real" where
  "ev_start e = snd (snd e)"

definition SR :: real where
  "SR = 44100"

definition DURATION :: real where
  "DURATION = 15"

text \<open>\<^verbatim>\<open>int(x)\<close> on a float truncates towards zero.\<close>

definition py_int :: "real \<Rightarrow> int" where
  "py_int x = (if 0 \<le> x then \<lfloor>x\<rfloor> else \<lceil>x\<rceil>)"

text \<open>Subscripting a dict: \<^verbatim>\<open>d[k]\<close> raises \<^verbatim>\<open>KeyError\<close> on a missing key.\<close>

definition getitem :: "('k \<rightharpoonup> 'v) \<Rightarrow> 'k \<Rightarrow> fault + 'v" where
  "getitem d k = (case d k of None \<Rightarrow> Inl KeyError | Some v \<Rightarrow> Inr v)"

text \<open>The pitch table, with the decimals as they are written in the source.\<close>

definition note_freqs :: "string \<rightharpoonup> real" where
  "note_freqs = map_of
    [(''C3'', 130.81), (''D3'', 146.83), (''E3'', 164.81), (''F3'', 174.61), (''G3'', 196.00),
     (''A3'', 220.00), (''B3'', 246.94), (''C4'', 261.63), (''D4'', 293.66), (''E4'', 329.63),
     (''F4'', 349.23), (''G4'', 392.00), (''A4'', 440.00), (''B4'', 493.88), (''C5'', 523.25),
     (''D5'', 587.33), (''E5'', 659.25)]"

definition chord_notes :: "string \<rightharpoonup> string list" where
  "chord_notes = map_of
    [(''C3'', [''C4'', ''E4'', ''G4'']),
     (''G3'', [''G4'', ''B4'', ''D5'']),
     (''A3'', [''A4'', ''C5'', ''E5'']),
     (''F3'', [''F4'', ''A4'', ''C5'']),
     (''E3'', [''E3'', ''G3'', ''B3''])]"

definition chord_progressions :: "string list list" where
  "chord_progressions =
    [ [''C3'', ''G3'', ''A3'', ''F3''],
      [''A3'', ''F3'', ''C3'', ''G3''],
      [''F3'', ''G3'', ''E3'', ''A3''],
      [''C3'', ''A3'', ''F3'', ''G3''],
      [''C3'', ''F3'', ''G3'', ''C3''],
      [''A3'', ''F3'', ''G3'', ''C3''] ]"

definition scale :: "string list" where
  "scale = [''C4'', ''D4'', ''E4'', ''F4'', ''G4'', ''A4'', ''B4'', ''C5'']"

section \<open>Float arithmetic\<close>

text \<open>
  \<open>f64 x\<close> is the binary64 number nearest to \<open>x\<close>: with \<open>e\<close> the binary exponent of
  \<open>x\<close>, the multiple of \<open>2\<^sup>e\<^sup>-\<^sup>5\<^sup>2\<close> nearest to \<open>x\<close>, a tie going to the even multiple. The
  exponent is not bounded: overflow to infinity and the subnormal numbers are not
  modelled (the times and samples of the program are far from both).
\<close>

definition exact :: "real \<Rightarrow> real" where
  "exact x = x"

definition round_half_even :: "real \<Rightarrow> int" where
  "round_half_even y =
     (let f = \<lfloor>y\<rfloor>; d = y - of_int f
      in if d < 1 / 2 then f else if 1 / 2 < d then f + 1 else if even f then f else f + 1)"

definition pow2 :: "int \<Rightarrow> real" where
  "pow2 k = (if 0 \<le> k then 2 ^ nat k else 1 / 2 ^ nat (- k))"

text \<open>The binary exponent \<open>e\<close> of \<open>x\<close>: \<open>2\<^sup>e \<le> |x| < 2\<^sup>e\<^sup>+\<^sup>1\<close>.\<close>

definition f64_exponent :: "real \<Rightarrow> int" where
  "f64_exponent x = \<lfloor>log 2 \<bar>x\<bar>\<rfloor>"

definition f64 :: "real \<Rightarrow> real" where
  "f64 x =
     (if x = 0 then 0
      else (let u = pow2 (f64_exponent x - 52)
            in of_int (round_half_even (x / u)) * u))"

text \<open>
  What the general statements below ask of a rounding operator. \<open>rel_rounding u rnd\<close>:
  the result is within the relative error \<open>u\<close> of the exact value (for binary64,
  \<open>u = 2\<^sup>-\<^sup>5\<^sup>3\<close>). \<open>float_rounding u rnd\<close>: moreover a result of the operator is left alone by
  it (it is a number of the format), and the difference of two numbers of the format
  within a factor 2 of each other is computed without error. \<open>dyadic_exact rnd\<close>: every
  \<open>m / 2\<^sup>n\<close> with \<open>|m| < 2\<^sup>5\<^sup>3\<close> is a number of the format.
\<close>

definition rel_rounding :: "real \<Rightarrow> (real \<Rightarrow> real) \<Rightarrow> bool" where
  "rel_rounding u rnd = (0 \<le> u \<and> u \<le> 1 / 16 \<and> (\<forall>x. \<bar>rnd x - x\<bar> \<le> u * \<bar>x\<bar>))"

definition float_rounding :: "real \<Rightarrow> (real \<Rightarrow> real) \<Rightarrow> bool" where
  "float_rounding u rnd =
     (rel_rounding u rnd \<and> (\<forall>x. rnd (rnd x) = rnd x)
      \<and> (\<forall>a b. rnd a = a \<and> rnd b = b \<and> a \<le> b \<and> b \<le> 2 * a \<longrightarrow> rnd (b - a) = b - a))"

definition dyadic_exact :: "(real \<Rightarrow> real) \<Rightarrow> bool" where
  "dyadic_exact rnd =
     (\<forall>m n. \<bar>m\<bar> < 2 ^ 53 \<longrightarrow> rnd (real_of_int m / 2 ^ n) = real_of_int m / 2 ^ n)"

section \<open>The two random sources\<close>

text \<open>
  The generators draw from Python's \<^verbatim>\<open>random\<close> module and the percussion synthesizer
  from \<^verbatim>\<open>numpy.random\<close>; both are global state seeded from the clock. Neither
  generator is part of the program, so each is an input here: the stream of values it
  is going to return. A call reads the head of the stream and leaves the rest. Nothing
  below assumes anything about the streams.
\<close>

type_synonym py_rng = "nat \<Rightarrow> nat"

definition rng_next :: "py_rng \<Rightarrow> py_rng" where
  "rng_next g = (\<lambda>k. g (Suc k))"

text \<open>\<^verbatim>\<open>random.random()\<close>: 53 random bits scaled into the interval from 0 to 1.\<close>

definition py_random :: "py_rng \<Rightarrow> real \<times> py_rng" where
  "py_random g = (real (g 0 mod 2 ^ 53) / 2 ^ 53, rng_next g)"

text \<open>
  \<^verbatim>\<open>random.choice(seq)\<close>: \<^verbatim>\<open>IndexError\<close> on an empty sequence; otherwise the
  element at a drawn index below the length (the head of the stream, reduced modulo the
  length).
\<close>

definition py_choice :: "'a list \<Rightarrow> py_rng \<Rightarrow> fault + ('a \<times> py_rng)" where
  "py_choice xs g =
     (if xs = [] then Inl IndexError else Inr (xs ! (g 0 mod length xs), rng_next g))"

text \<open>\<^verbatim>\<open>itertools.accumulate\<close>: the running sums, the first being the first element.\<close>

fun accumulate_from :: "(real \<Rightarrow> real) \<Rightarrow> real \<Rightarrow> real list \<Rightarrow> real list" where
  "accumulate_from rnd acc [] = []"
| "accumulate_from rnd acc (w # ws) = rnd (acc + w) # accumulate_from rnd (rnd (acc + w)) ws"

fun accumulate :: "(real \<Rightarrow> real) \<Rightarrow> real list \<Rightarrow> real list" where
  "accumulate rnd [] = []"
| "accumulate rnd (w # ws) = w # accumulate_from rnd w ws"

text \<open>
  \<^verbatim>\<open>random.choices(population, weights=ws)[0]\<close>: one uniform draw scaled by the total
  weight (\<^verbatim>\<open>cum_weights[-1] + 0.0\<close>), located among the cumulative weights by a right
  bisection over all but the last of them. The checks the function makes on its arguments
  pass for the constant arguments of the program and are left out.
\<close>

definition py_choices :: "(real \<Rightarrow> real) \<Rightarrow> 'a list \<Rightarrow> real list \<Rightarrow> py_rng \<Rightarrow> 'a \<times> py_rng" where
  "py_choices rnd population weights g =
     (let cum = accumulate rnd weights;
          total = rnd (last cum + 0);
          (u, g') = py_random g;
          x = rnd (u * total)
      in (population ! length (filter (\<lambda>c. c \<le> x) (butlast cum)), g'))"

text \<open>
  \<^verbatim>\<open>random.shuffle(x)\<close>: for \<open>i\<close> from the last index down to 1, swap \<open>x[i]\<close> with
  \<open>x[j]\<close> for a drawn \<open>j \<le> i\<close>.
\<close>

definition shuffle_swap :: "nat \<Rightarrow> 'a list \<times> py_rng \<Rightarrow> 'a list \<times> py_rng" where
  "shuffle_swap i s =
     (let xs = fst s; g = snd s; j = g 0 mod (i + 1)
      in (xs[i := xs ! j, j := xs ! i], rng_next g))"

definition py_shuffle :: "'a list \<Rightarrow> py_rng \<Rightarrow> 'a list \<times> py_rng" where
  "py_shuffle xs g = fold shuffle_swap (rev [1..<length xs]) (xs, g)"

type_synonym np_rng = "nat \<Rightarrow> real"

text \<open>\<^verbatim>\<open>np.random.rand(n)\<close>: the next \<open>n\<close> uniform samples.\<close>

definition np_rand :: "nat \<Rightarrow> np_rng \<Rightarrow> real list \<times> np_rng" where
  "np_rand n g = (map g [0..<n], (\<lambda>k. g (k + n)))"

text \<open>The stream that returns the same sample for ever, for worked examples.\<close>

definition const_noise :: "real \<Rightarrow> np_rng" where
  "const_noise c = (\<lambda>k. c)"

section \<open>Waveform synthesizer\<close>

text \<open>
  \<^verbatim>\<open>np.linspace(start, stop, num, False)\<close>: \<open>num\<close> points, the \<open>k\<close>-th being
  \<open>k * step + start\<close> for \<open>step = (stop - start) / num\<close>, the end point left out; a
  negative \<open>num\<close> raises \<^verbatim>\<open>ValueError\<close>.
\<close>

definition linspace :: "(real \<Rightarrow> real) \<Rightarrow> real \<Rightarrow> real \<Rightarrow> int \<Rightarrow> fault + real list" where
  "linspace rnd start stop num =
     (if num < 0 then Inl ValueError
      else (let step = rnd (rnd (stop - start) / real_of_int num)
            in Inr (map (\<lambda>k. rnd (rnd (real k * step) + start)) [0..<nat num])))"

text \<open>
  The library functions \<^verbatim>\<open>np.sin\<close> and \<^verbatim>\<open>np.exp\<close> are taken to return the rounded
  exact value; \<^verbatim>\<open>2 * np.pi * f\<close> is evaluated from the left. No statement below depends
  on the value of a sample of a tonal or percussive waveform, only on the number of
  samples.
\<close>

definition np_sin :: "(real \<Rightarrow> real) \<Rightarrow> real \<Rightarrow> real" where
  "np_sin rnd x = rnd (sin x)"

definition np_exp :: "(real \<Rightarrow> real) \<Rightarrow> real \<Rightarrow> real" where
  "np_exp rnd x = rnd (exp x)"

definition two_pi_f :: "(real \<Rightarrow> real) \<Rightarrow> real \<Rightarrow> real" where
  "two_pi_f rnd f = rnd (rnd (2 * rnd pi) * f)"

definition sine_wave :: "(real \<Rightarrow> real) \<Rightarrow> real \<Rightarrow> real \<Rightarrow> real \<Rightarrow> fault + real list" where
  "sine_wave rnd freq dur decay_factor =
     (case linspace rnd 0 dur (py_int (rnd (SR * dur))) of
        Inl e \<Rightarrow> Inl e
      | Inr t \<Rightarrow>
          (let wave = map (\<lambda>x. np_sin rnd (rnd (two_pi_f rnd freq * x))) t
           in if decay_factor > 0
              then Inr (map2 (\<lambda>w x. rnd (w * np_exp rnd (rnd (rnd (- x / dur) * decay_factor))))
                          wave t)
              else Inr wave))"

definition drum_sound ::
  "(real \<Rightarrow> real) \<Rightarrow> np_rng \<Rightarrow> string \<Rightarrow> real \<Rightarrow> fault + (real list \<times> np_rng)" where
  "drum_sound rnd g kind dur =
     (case linspace rnd 0 dur (py_int (rnd (SR * dur))) of
        Inl e \<Rightarrow> Inl e
      | Inr t \<Rightarrow>
          if kind = ''kick''
          then Inr (map (\<lambda>x. rnd (np_sin rnd (rnd (two_pi_f rnd 55 * x))
                                    * np_exp rnd (rnd (- x * 30)))) t, g)
          else if kind = ''snare''
          then (let (noise, g') = np_rand (length t) g
                in Inr (map2 (\<lambda>x r. rnd (rnd (rnd (rnd 0.8 * np_sin rnd (rnd (two_pi_f rnd 180 * x)))
                                                 + rnd (rnd 0.2 * r))
                                            * np_exp rnd (rnd (- x * 20))))
                          t noise, g'))
          else if kind = ''hihat''
          then (let (noise, g') = np_rand (length t) g
                in Inr (map2 (\<lambda>x r. rnd (rnd (r * np_exp rnd (rnd (- x * 60))) * rnd 0.4))
                          t noise, g'))
          else if kind = ''clap''
          then (let (noise, g') = np_rand (length t) g
                in Inr (map2 (\<lambda>x r. rnd (rnd (r * np_exp rnd (rnd (- x * 40))) * rnd 0.6))
                          t noise, g'))
          else Inr (replicate (length t) 0, g))"

text \<open>
  The synthesis closures passed to the mixer. The tonal ones look the symbol up in the
  pitch table first (\<^verbatim>\<open>note_freqs[n]\<close>) and never touch the NumPy generator, so
  they pass any state through.
\<close>

definition tonal_fn ::
  "(real \<Rightarrow> real) \<Rightarrow> real \<Rightarrow> 's \<Rightarrow> string \<Rightarrow> real \<Rightarrow> fault + (real list \<times> 's)" where
  "tonal_fn rnd decay_factor g n d =
     (case getitem note_freqs n of
        Inl e \<Rightarrow> Inl e
      | Inr freq \<Rightarrow>
          (case sine_wave rnd (rnd freq) d decay_factor of
             Inl e \<Rightarrow> Inl e
           | Inr w \<Rightarrow> Inr (w, g)))"

definition drum_fn ::
  "(real \<Rightarrow> real) \<Rightarrow> np_rng \<Rightarrow> string \<Rightarrow> real \<Rightarrow> fault + (real list \<times> np_rng)" where
  "drum_fn rnd g k d = drum_sound rnd g k d"

text \<open>
  A closure that returns one sample of amplitude 1 for every event, for worked examples
  of the mixer.
\<close>

definition click :: "'s \<Rightarrow> string \<Rightarrow> real \<Rightarrow> fault + (real list \<times> 's)" where
  "click s n d = Inr ([1], s)"

section \<open>Mixing engine\<close>

text \<open>
  Slices. An index of a slice is first shifted by the length when negative and then
  clipped to the array; \<^verbatim>\<open>a[lo:hi]\<close> is empty when the bounds cross.
\<close>

definition slice_index :: "int \<Rightarrow> nat \<Rightarrow> nat" where
  "slice_index i n = (if i < 0 then nat (max 0 (i + int n)) else min (nat i) n)"

definition slice_upto :: "'a list \<Rightarrow> int \<Rightarrow> 'a list" where
  "slice_upto xs k = take (slice_index k (length xs)) xs"

text \<open>
  \<^verbatim>\<open>buf[i0:i1] += src\<close>: the slice is a view, so each rounded sum is stored back into
  \<open>buf\<close>. The operand must have the length of the slice, or length 1 (it is then
  broadcast); anything else raises \<^verbatim>\<open>ValueError\<close>.
\<close>

definition iadd_slice ::
  "(real \<Rightarrow> real) \<Rightarrow> real list \<Rightarrow> int \<Rightarrow> int \<Rightarrow> real list \<Rightarrow> fault + real list" where
  "iadd_slice rnd buf i0 i1 src =
     (let lo = slice_index i0 (length buf);
          hi = slice_index i1 (length buf);
          len = hi - lo
      in if length src = len
         then Inr (take lo buf @ map2 (\<lambda>b x. rnd (b + x)) (take len (drop lo buf)) src
                     @ drop (lo + len) buf)
         else if length src = 1
         then Inr (take lo buf @ map (\<lambda>b. rnd (b + src ! 0)) (take len (drop lo buf))
                     @ drop (lo + len) buf)
         else Inl ValueError)"

text \<open>
  One iteration of the loop of \<^verbatim>\<open>add_events\<close>. The start index is \<^verbatim>\<open>int\<close> of the
  float product \<^verbatim>\<open>start * SR\<close>. The waveform is synthesized, and scaled by the volume,
  before the bound on \<open>i0\<close> is looked at. \<open>s\<close> is the state of the NumPy generator, which
  the synthesis closure may advance.
\<close>

definition add_event ::
  "(real \<Rightarrow> real) \<Rightarrow> ('s \<Rightarrow> string \<Rightarrow> real \<Rightarrow> fault + (real list \<times> 's)) \<Rightarrow> real
     \<Rightarrow> real list \<times> 's \<Rightarrow> event \<Rightarrow> fault + (real list \<times> 's)" where
  "add_event rnd gen_fn vol bs e =
     (let buf = fst bs; s = snd bs;
          N = int (length buf);
          i0 = py_int (rnd (ev_start e * SR))
      in case gen_fn s (ev_name e) (ev_dur e) of
           Inl err \<Rightarrow> Inl err
         | Inr (w, s') \<Rightarrow>
             (let data = map (\<lambda>x. rnd (x * vol)) w;
                  i1 = min (i0 + int (length data)) N
              in if i0 < N
                 then (case iadd_slice rnd buf i0 i1 (slice_upto data (i1 - i0)) of
                         Inl err \<Rightarrow> Inl err
                       | Inr buf' \<Rightarrow> Inr (buf', s'))
                 else Inr (buf, s')))"

fun add_events ::
  "(real \<Rightarrow> real) \<Rightarrow> real list \<times> 's \<Rightarrow> event list
     \<Rightarrow> ('s \<Rightarrow> string \<Rightarrow> real \<Rightarrow> fault + (real list \<times> 's)) \<Rightarrow> real
     \<Rightarrow> fault + (real list \<times> 's)" where
  "add_events rnd bs [] gen_fn vol = Inr bs"
| "add_events rnd bs (e # es) gen_fn vol =
     (case add_event rnd gen_fn vol bs e of
        Inl err \<Rightarrow> Inl err
      | Inr bs' \<Rightarrow> add_events rnd bs' es gen_fn vol)"

section \<open>Normalizer\<close>

text \<open>
  \<^verbatim>\<open>buffer *= 0.9 / np.max(np.abs(buffer))\<close>. NumPy does not raise on a float division
  by zero: it warns and returns an infinity or a NaN, which the multiplication then
  spreads. The values of a \<^verbatim>\<open>float64\<close> are therefore a real or one of the three
  special values (signed zeros are not told apart).
\<close>

datatype npfloat = Fin real | PosInf | NegInf | NaN

fun np_abs :: "npfloat \<Rightarrow> npfloat" where
  "np_abs (Fin a) = Fin \<bar>a\<bar>"
| "np_abs PosInf = PosInf"
| "np_abs NegInf = PosInf"
| "np_abs NaN = NaN"

fun np_maximum :: "npfloat \<Rightarrow> npfloat \<Rightarrow> npfloat" where
  "np_maximum NaN y = NaN"
| "np_maximum x NaN = NaN"
| "np_maximum PosInf y = PosInf"
| "np_maximum x PosInf = PosInf"
| "np_maximum NegInf y = y"
| "np_maximum x NegInf = x"
| "np_maximum (Fin a) (Fin b) = Fin (max a b)"

text \<open>\<^verbatim>\<open>np.max\<close> of an empty array raises \<^verbatim>\<open>ValueError\<close>.\<close>

fun np_max :: "npfloat list \<Rightarrow> fault + npfloat" where
  "np_max [] = Inl ValueError"
| "np_max (x # xs) = Inr (fold np_maximum xs x)"

fun np_div :: "(real \<Rightarrow> real) \<Rightarrow> npfloat \<Rightarrow> npfloat \<Rightarrow> npfloat" where
  "np_div rnd NaN y = NaN"
| "np_div rnd x NaN = NaN"
| "np_div rnd (Fin a) (Fin b) =
     (if b \<noteq> 0 then Fin (rnd (a / b))
      else if a = 0 then NaN else if 0 < a then PosInf else NegInf)"
| "np_div rnd (Fin a) y = Fin 0"
| "np_div rnd x (Fin b) =
     (if 0 \<le> b then x else (case x of PosInf \<Rightarrow> NegInf | NegInf \<Rightarrow> PosInf | z \<Rightarrow> z))"
| "np_div rnd x y = NaN"

fun np_mul :: "(real \<Rightarrow> real) \<Rightarrow> npfloat \<Rightarrow> npfloat \<Rightarrow> npfloat" where
  "np_mul rnd NaN y = NaN"
| "np_mul rnd x NaN = NaN"
| "np_mul rnd (Fin a) (Fin b) = Fin (rnd (a * b))"
| "np_mul rnd (Fin a) y =
     (if a = 0 then NaN
      else if 0 < a then y else (case y of PosInf \<Rightarrow> NegInf | NegInf \<Rightarrow> PosInf | z \<Rightarrow> z))"
| "np_mul rnd x (Fin b) =
     (if b = 0 then NaN
      else if 0 < b then x else (case x of PosInf \<Rightarrow> NegInf | NegInf \<Rightarrow> PosInf | z \<Rightarrow> z))"
| "np_mul rnd x y = (if x = y then PosInf else NegInf)"

text \<open>The literal \<^verbatim>\<open>0.9\<close> is itself a float: the decimal rounded.\<close>

definition normalize_buffer :: "(real \<Rightarrow> real) \<Rightarrow> npfloat list \<Rightarrow> fault + npfloat list" where
  "normalize_buffer rnd buffer =
     (case np_max (map np_abs buffer) of
        Inl e \<Rightarrow> Inl e
      | Inr m \<Rightarrow> Inr (map (\<lambda>x. np_mul rnd x (np_div rnd (Fin (rnd (9 / 10))) m)) buffer))"

text \<open>The peak of a buffer of finite samples: its largest absolute value.\<close>

definition peak :: "real list \<Rightarrow> real" where
  "peak xs = fold max (map abs xs) 0"

section \<open>Layer generators\<close>

text \<open>
  Every generator takes the total duration \<open>D\<close> (the module constant \<^verbatim>\<open>DURATION\<close>, an
  integer in the source) as an argument and returns its event list with the state in
  which it leaves Python's generator. \<^verbatim>\<open>60/bpm\<close> raises \<^verbatim>\<open>ZeroDivisionError\<close> for
  \<open>bpm = 0\<close>, and so do a float division by \<^verbatim>\<open>0.0\<close> and \<^verbatim>\<open>% len(prog)\<close> for an empty
  progression.

  A \<^verbatim>\<open>while\<close> loop is a partial function of the loop variables: \<open>while_loop c body st\<close>
  runs \<open>body\<close> from the state \<open>st\<close> for as long as the condition \<open>c\<close> holds and returns
  the state in which it fails, or the fault of the body. The value \<open>None\<close> stands for a
  loop that never exits.
\<close>

partial_function (option) while_loop ::
  "('s \<Rightarrow> bool) \<Rightarrow> ('s \<Rightarrow> fault + 's) \<Rightarrow> 's \<Rightarrow> (fault + 's) option" where
  "while_loop c body st =
     (if c st
      then (case body st of
              Inl e \<Rightarrow> Some (Inl e)
            | Inr st' \<Rightarrow> while_loop c body st')
      else Some (Inr st))"

text \<open>\<^verbatim>\<open>prog[k % len(prog)]\<close> for an integer \<open>k\<close>.\<close>

definition cyclic_get :: "'a list \<Rightarrow> int \<Rightarrow> fault + 'a" where
  "cyclic_get xs k =
     (if length xs = 0 then Inl ZeroDivisionError
      else Inr (xs ! nat (k mod int (length xs))))"

text \<open>
  \<^verbatim>\<open>prog[int(t / chord_len) % len(prog)]\<close>, the chord under the clock; the float
  division comes first.
\<close>

definition chord_at :: "(real \<Rightarrow> real) \<Rightarrow> 'a list \<Rightarrow> real \<Rightarrow> real \<Rightarrow> fault + 'a" where
  "chord_at rnd prog chord_len t =
     (if chord_len = 0 then Inl ZeroDivisionError
      else cyclic_get prog (py_int (rnd (t / chord_len))))"

subsection \<open>Melody\<close>

text \<open>The note of one step: the chord under the clock, the pool, the draw, the motif override.\<close>

definition melody_note ::
  "(real \<Rightarrow> real) \<Rightarrow> string list \<Rightarrow> real \<Rightarrow> string list \<Rightarrow> real \<Rightarrow> py_rng
     \<Rightarrow> fault + (string \<times> py_rng)" where
  "melody_note rnd prog beat motif t g =
     (let chord_len = rnd (4 * beat)
      in case chord_at rnd prog chord_len t of
           Inl e \<Rightarrow> Inl e
         | Inr chord \<Rightarrow>
             (let (r1, g1) = py_random g
              in case (if r1 < rnd 0.7 then getitem chord_notes chord else Inr scale) of
                   Inl e \<Rightarrow> Inl e
                 | Inr pool \<Rightarrow>
                     (case py_choice pool g1 of
                        Inl e \<Rightarrow> Inl e
                      | Inr (note0, g2) \<Rightarrow>
                          (let (r2, g3) = py_random g2
                           in if r2 < rnd 0.2 then py_choice motif g3 else Inr (note0, g3)))))"

text \<open>The duration of one step: a weighted draw of beats, clamped to the time left.\<close>

definition melody_dur :: "(real \<Rightarrow> real) \<Rightarrow> real \<Rightarrow> real \<Rightarrow> real \<Rightarrow> py_rng \<Rightarrow> real \<times> py_rng" where
  "melody_dur rnd D beat t g =
     (let (k, g') = py_choices rnd [0.5, 1.0, 2.0] [rnd 0.4, rnd 0.4, rnd 0.2] g
      in (min (rnd (k * beat)) (rnd (D - t)), g'))"

text \<open>The body of the loop; the clock is advanced by the float sum \<^verbatim>\<open>t += dur\<close>.\<close>

definition melody_step ::
  "(real \<Rightarrow> real) \<Rightarrow> real \<Rightarrow> string list \<Rightarrow> real \<Rightarrow> string list \<Rightarrow> real \<times> event list \<times> py_rng
     \<Rightarrow> fault + (real \<times> event list \<times> py_rng)" where
  "melody_step rnd D prog beat motif st =
     (let t = fst st; out = fst (snd st); g = snd (snd st)
      in case melody_note rnd prog beat motif t g of
           Inl e \<Rightarrow> Inl e
         | Inr (note, g4) \<Rightarrow>
             (let (dur, g5) = melody_dur rnd D beat t g4
              in Inr (rnd (t + dur), out @ [(note, dur, t)], g5)))"

definition make_melody ::
  "(real \<Rightarrow> real) \<Rightarrow> real \<Rightarrow> string list \<Rightarrow> real \<Rightarrow> string list \<Rightarrow> py_rng
     \<Rightarrow> (fault + event list \<times> py_rng) option" where
  "make_melody rnd D prog bpm motif g =
     (if bpm = 0 then Some (Inl ZeroDivisionError)
      else map_option (map_sum id snd)
             (while_loop (\<lambda>st. fst st < D) (melody_step rnd D prog (rnd (60 / bpm)) motif)
                (0, [], g)))"

subsection \<open>Arpeggio\<close>

text \<open>
  \<^verbatim>\<open>notes.sort(key=lambda n: note_freqs[n])\<close>: the key is computed for every element
  first (\<^verbatim>\<open>KeyError\<close> on a note without a frequency), the sort is stable, and
  \<^verbatim>\<open>reverse=True\<close> keeps the original order of equal keys.
\<close>

definition sort_notes :: "(real \<Rightarrow> real) \<Rightarrow> bool \<Rightarrow> string list \<Rightarrow> fault + string list" where
  "sort_notes rnd reverse notes =
     (if list_all (\<lambda>n. note_freqs n \<noteq> None) notes
      then Inr (if reverse then rev (sort_key (\<lambda>n. rnd (the (note_freqs n))) (rev notes))
                else sort_key (\<lambda>n. rnd (the (note_freqs n))) notes)
      else Inl KeyError)"

text \<open>The note of one step: the triad of the chord under the clock, ordered by the style.\<close>

definition arpeggio_note ::
  "(real \<Rightarrow> real) \<Rightarrow> string list \<Rightarrow> real \<Rightarrow> string \<Rightarrow> real \<Rightarrow> nat \<Rightarrow> py_rng
     \<Rightarrow> fault + (string \<times> py_rng)" where
  "arpeggio_note rnd prog beat style t idx g =
     (case chord_at rnd prog (rnd (4 * beat)) t of
        Inl e \<Rightarrow> Inl e
      | Inr chord \<Rightarrow>
          (case getitem chord_notes chord of
             Inl e \<Rightarrow> Inl e
           | Inr notes0 \<Rightarrow>
               (case (if style = ''asc'' then sort_notes rnd False notes0 else Inr notes0) of
                  Inl e \<Rightarrow> Inl e
                | Inr notes1 \<Rightarrow>
                    (case (if style = ''desc'' then sort_notes rnd True notes1 else Inr notes1) of
                       Inl e \<Rightarrow> Inl e
                     | Inr notes2 \<Rightarrow>
                         (let (notes, g') =
                                (if style = ''rand'' then py_shuffle notes2 g else (notes2, g))
                          in case cyclic_get notes (int idx) of
                               Inl e \<Rightarrow> Inl e
                             | Inr note \<Rightarrow> Inr (note, g'))))))"

definition arpeggio_step ::
  "(real \<Rightarrow> real) \<Rightarrow> real \<Rightarrow> string list \<Rightarrow> real \<Rightarrow> string
     \<Rightarrow> real \<times> nat \<times> event list \<times> py_rng
     \<Rightarrow> fault + (real \<times> nat \<times> event list \<times> py_rng)" where
  "arpeggio_step rnd D prog beat style st =
     (let t = fst st; idx = fst (snd st); out = fst (snd (snd st)); g = snd (snd (snd st));
          step = rnd (0.5 * beat)
      in case arpeggio_note rnd prog beat style t idx g of
           Inl e \<Rightarrow> Inl e
         | Inr (note, g') \<Rightarrow>
             (let dur = min step (rnd (D - t))
              in Inr (rnd (t + dur), idx + 1, out @ [(note, dur, t)], g')))"

definition make_arpeggio ::
  "(real \<Rightarrow> real) \<Rightarrow> real \<Rightarrow> string list \<Rightarrow> real \<Rightarrow> py_rng
     \<Rightarrow> (fault + event list \<times> py_rng) option" where
  "make_arpeggio rnd D prog bpm g =
     (if bpm = 0 then Some (Inl ZeroDivisionError)
      else (case py_choice [''asc'', ''desc'', ''rand''] g of
              Inl e \<Rightarrow> Some (Inl e)
            | Inr (style, g') \<Rightarrow>
                map_option (map_sum id (\<lambda>st. snd (snd st)))
                  (while_loop (\<lambda>st. fst st < D) (arpeggio_step rnd D prog (rnd (60 / bpm)) style)
                     (0, 0, [], g'))))"

subsection \<open>Bassline\<close>

definition bass_step ::
  "(real \<Rightarrow> real) \<Rightarrow> real \<Rightarrow> string list \<Rightarrow> real \<Rightarrow> real \<times> nat \<times> event list
     \<Rightarrow> fault + (real \<times> nat \<times> event list)" where
  "bass_step rnd D prog beat st =
     (let t = fst st; idx = fst (snd st); out = snd (snd st)
      in case cyclic_get prog (int idx) of
           Inl e \<Rightarrow> Inl e
         | Inr chord \<Rightarrow>
             (let dur = min (rnd (4 * beat)) (rnd (D - t))
              in Inr (rnd (t + dur), idx + 1, out @ [(chord, dur, t)])))"

definition make_bass ::
  "(real \<Rightarrow> real) \<Rightarrow> real \<Rightarrow> string list \<Rightarrow> real \<Rightarrow> (fault + event list) option" where
  "make_bass rnd D prog bpm =
     (if bpm = 0 then Some (Inl ZeroDivisionError)
      else map_option (map_sum id (\<lambda>st. snd (snd st)))
             (while_loop (\<lambda>st. fst st < D) (bass_step rnd D prog (rnd (60 / bpm))) (0, 0, [])))"

subsection \<open>Pads\<close>

definition pads_step ::
  "(real \<Rightarrow> real) \<Rightarrow> real \<Rightarrow> string list \<Rightarrow> real \<Rightarrow> real \<times> nat \<times> event list
     \<Rightarrow> fault + (real \<times> nat \<times> event list)" where
  "pads_step rnd D prog beat st =
     (let t = fst st; idx = fst (snd st); out = snd (snd st);
          chord_dur = rnd (4 * beat)
      in case cyclic_get prog (int idx) of
           Inl e \<Rightarrow> Inl e
         | Inr chord \<Rightarrow>
             (case getitem chord_notes chord of
                Inl e \<Rightarrow> Inl e
              | Inr notes \<Rightarrow>
                  (let dur = min chord_dur (rnd (D - t))
                   in Inr (rnd (t + chord_dur), idx + 1,
                           out @ map (\<lambda>note. (note, dur, t)) notes))))"

definition make_pads ::
  "(real \<Rightarrow> real) \<Rightarrow> real \<Rightarrow> string list \<Rightarrow> real \<Rightarrow> (fault + event list) option" where
  "make_pads rnd D prog bpm =
     (if bpm = 0 then Some (Inl ZeroDivisionError)
      else map_option (map_sum id (\<lambda>st. snd (snd st)))
             (while_loop (\<lambda>st. fst st < D) (pads_step rnd D prog (rnd (60 / bpm))) (0, 0, [])))"

subsection \<open>Drums\<close>




section \<open>Build and mix\<close>

text \<open>
  The script calls \<^verbatim>\<open>add_events\<close> once per layer on the shared buffer. A layer is
  its event list, its synthesis closure and its volume.
\<close>

type_synonym 's layer = "event list \<times> ('s \<Rightarrow> string \<Rightarrow> real \<Rightarrow> fault + (real list \<times> 's)) \<times> real"

fun mix_layers ::
  "(real \<Rightarrow> real) \<Rightarrow> real list \<times> 's \<Rightarrow> 's layer list \<Rightarrow> fault + (real list \<times> 's)" where
  "mix_layers rnd bs [] = Inr bs"
| "mix_layers rnd bs (l # ls) =
     (case add_events rnd bs (fst l) (fst (snd l)) (snd (snd l)) of
        Inl err \<Rightarrow> Inl err
      | Inr bs' \<Rightarrow> mix_layers rnd bs' ls)"

definition layers ::
  "(real \<Rightarrow> real) \<Rightarrow> event list \<Rightarrow> event list \<Rightarrow> event list \<Rightarrow> event list \<Rightarrow> event list
     \<Rightarrow> np_rng layer list" where
  "layers rnd melody arpeggio bassline pads drums =
     [(melody, tonal_fn rnd 3, rnd 0.9),
      (arpeggio, tonal_fn rnd 3, rnd 0.3),
      (bassline, tonal_fn rnd 0, rnd 0.7),
      (pads, tonal_fn rnd 0.5, rnd 0.2),
      (drums, drum_fn rnd, 1.0)]"

section \<open>Properties of event lists\<close>



text \<open>
  Events that follow one another on the float clock. \<open>chained rnd D t es\<close>: the first
  event starts at \<open>t\<close>, before \<open>D\<close>, lasts a positive time that is at most the float
  \<open>D - t\<close>, and the rest is chained from the float sum of \<open>t\<close> and that duration, the
  value of the clock after \<^verbatim>\<open>t += dur\<close>. \<open>clock_from rnd t es\<close> is the clock after the
  last event: the durations summed from \<open>t\<close>, one float addition after the other.
  \<open>tiles rnd D es\<close>: the events are chained from 0 and the clock after the last one has
  reached \<open>D\<close>.
\<close>

fun chained :: "(real \<Rightarrow> real) \<Rightarrow> real \<Rightarrow> real \<Rightarrow> event list \<Rightarrow> bool" where
  "chained rnd D t [] = True"
| "chained rnd D t (e # es) =
     (ev_start e = t \<and> t < D \<and> 0 < ev_dur e \<and> ev_dur e \<le> rnd (D - t)
      \<and> chained rnd D (rnd (t + ev_dur e)) es)"

definition clock_from :: "(real \<Rightarrow> real) \<Rightarrow> real \<Rightarrow> event list \<Rightarrow> real" where
  "clock_from rnd t es = fold (\<lambda>e t. rnd (t + ev_dur e)) es t"

definition tiles :: "(real \<Rightarrow> real) \<Rightarrow> real \<Rightarrow> event list \<Rightarrow> bool" where
  "tiles rnd D es = (chained rnd D 0 es \<and> D \<le> clock_from rnd 0 es)"

text \<open>
  The pads come three to a chord. \<open>triads es\<close>: the list splits into runs of three
  events with one start and one duration; \<open>every_third es\<close> keeps the first of each run.
  \<open>pad_chained rnd D c t es\<close>: the first event starts at \<open>t\<close>, before \<open>D\<close>, and lasts the
  chord length \<open>c\<close> or the float \<open>D - t\<close> if that is shorter, and the rest is chained from
  the float sum of \<open>t\<close> and \<open>c\<close>, the value of the clock after \<^verbatim>\<open>t += chord_dur\<close>.
  \<open>pads_tile rnd D c es\<close>: runs of three, chained from 0, and the clock after the last
  run has reached \<open>D\<close>.
\<close>

fun triads :: "event list \<Rightarrow> bool" where
  "triads [] = True"
| "triads (a # b # c # es) =
     (ev_start b = ev_start a \<and> ev_start c = ev_start a \<and>
      ev_dur b = ev_dur a \<and> ev_dur c = ev_dur a \<and> triads es)"
| "triads es = False"

fun every_third :: "event list \<Rightarrow> event list" where
  "every_third (a # b # c # es) = a # every_third es"
| "every_third es = []"

fun pad_chained :: "(real \<Rightarrow> real) \<Rightarrow> real \<Rightarrow> real \<Rightarrow> real \<Rightarrow> event list \<Rightarrow> bool" where
  "pad_chained rnd D c t [] = True"
| "pad_chained rnd D c t (e # es) =
     (ev_start e = t \<and> t < D \<and> ev_dur e = min c (rnd (D - t))
      \<and> pad_chained rnd D c (rnd (t + c)) es)"

definition pad_clock :: "(real \<Rightarrow> real) \<Rightarrow> real \<Rightarrow> event list \<Rightarrow> real" where
  "pad_clock rnd c es = fold (\<lambda>e t. rnd (t + c)) es 0"

definition pads_tile :: "(real \<Rightarrow> real) \<Rightarrow> real \<Rightarrow> real \<Rightarrow> event list \<Rightarrow> bool" where
  "pads_tile rnd D c es =
     (triads es \<and> pad_chained rnd D c 0 (every_third es) \<and> D \<le> pad_clock rnd c (every_third es))"

text \<open>The sum of the durations and the contiguity of a list of events in exact arithmetic.\<close>

definition total_dur :: "event list \<Rightarrow> real" where
  "total_dur es = sum_list (map ev_dur es)"

fun contiguous :: "real \<Rightarrow> event list \<Rightarrow> bool" where
  "contiguous t [] = True"
| "contiguous t (e # es) = (ev_start e = t \<and> contiguous (t + ev_dur e) es)"

section \<open>Auxiliary notions for the order of the layers\<close>

text \<open>
  A synthesis closure is state free when it returns the generator state it was given and
  its waveform does not depend on that state. A layer is impure when its closure is not
  state free.
\<close>

definition state_free :: "('s \<Rightarrow> string \<Rightarrow> real \<Rightarrow> fault + (real list \<times> 's)) \<Rightarrow> bool" where
  "state_free gen_fn =
     (\<exists>f. \<forall>s n d. gen_fn s n d = (case f n d of Inl e \<Rightarrow> Inl e | Inr w \<Rightarrow> Inr (w, s)))"

definition impure :: "'s layer \<Rightarrow> bool" where
  "impure l = (\<not> state_free (fst (snd l)))"

text \<open>The float sum of two sample arrays, element by element.\<close>

definition radd :: "(real \<Rightarrow> real) \<Rightarrow> real list \<Rightarrow> real list \<Rightarrow> real list" where
  "radd rnd xs ds = map2 (\<lambda>x d. rnd (x + d)) xs ds"

text \<open>Arrays added to a buffer one after the other, each with the float sum.\<close>

definition radd_all :: "(real \<Rightarrow> real) \<Rightarrow> real list list \<Rightarrow> real list \<Rightarrow> real list" where
  "radd_all rnd ds buf = fold (\<lambda>d b. radd rnd b d) ds buf"

text \<open>
  What an in-place slice addition adds to each sample of an array of length \<open>N\<close>: the
  operand, padded with zeros outside the slice.
\<close>

definition slice_delta :: "nat \<Rightarrow> int \<Rightarrow> int \<Rightarrow> real list \<Rightarrow> fault + real list" where
  "slice_delta N i0 i1 src =
     (let lo = slice_index i0 N;
          hi = slice_index i1 N;
          len = hi - lo
      in if length src = len
         then Inr (replicate lo 0 @ src @ replicate (N - (lo + len)) 0)
         else if length src = 1
         then Inr (replicate lo 0 @ replicate len (src ! 0) @ replicate (N - (lo + len)) 0)
         else Inl ValueError)"

text \<open>
  The contribution of one event to a buffer of length \<open>N\<close>: what one loop iteration of
  \<^verbatim>\<open>add_events\<close> adds to each sample.
\<close>

definition event_delta ::
  "(real \<Rightarrow> real) \<Rightarrow> ('s \<Rightarrow> string \<Rightarrow> real \<Rightarrow> fault + (real list \<times> 's)) \<Rightarrow> real \<Rightarrow> nat \<Rightarrow> 's
     \<Rightarrow> event \<Rightarrow> fault + (real list \<times> 's)" where
  "event_delta rnd gen_fn vol N s e =
     (let i0 = py_int (rnd (ev_start e * SR))
      in case gen_fn s (ev_name e) (ev_dur e) of
           Inl err \<Rightarrow> Inl err
         | Inr (w, s') \<Rightarrow>
             (let data = map (\<lambda>x. rnd (x * vol)) w;
                  i1 = min (i0 + int (length data)) (int N)
              in if i0 < int N
                 then (case slice_delta N i0 i1 (slice_upto data (i1 - i0)) of
                         Inl err \<Rightarrow> Inl err
                       | Inr d \<Rightarrow> Inr (d, s'))
                 else Inr (replicate N 0, s')))"

text \<open>The contributions of the events of a list, in the order of the list.\<close>

fun events_deltas ::
  "(real \<Rightarrow> real) \<Rightarrow> ('s \<Rightarrow> string \<Rightarrow> real \<Rightarrow> fault + (real list \<times> 's)) \<Rightarrow> real \<Rightarrow> nat \<Rightarrow> 's
     \<Rightarrow> event list \<Rightarrow> fault + (real list list \<times> 's)" where
  "events_deltas rnd gen_fn vol N s [] = Inr ([], s)"
| "events_deltas rnd gen_fn vol N s (e # es) =
     (case event_delta rnd gen_fn vol N s e of
        Inl err \<Rightarrow> Inl err
      | Inr (d, s') \<Rightarrow>
          (case events_deltas rnd gen_fn vol N s' es of
             Inl err \<Rightarrow> Inl err
           | Inr (ds, s'') \<Rightarrow> Inr (d # ds, s'')))"

text \<open>
  The contributions of one layer run from the generator state \<open>s\<close>; whether the layer is
  mixed without a fault; the contributions alone; the state the layer leaves behind.
\<close>

definition layer_deltas ::
  "(real \<Rightarrow> real) \<Rightarrow> nat \<Rightarrow> 's \<Rightarrow> 's layer \<Rightarrow> fault + (real list list \<times> 's)" where
  "layer_deltas rnd N s l = events_deltas rnd (fst (snd l)) (snd (snd l)) N s (fst l)"

definition layer_ok :: "(real \<Rightarrow> real) \<Rightarrow> nat \<Rightarrow> 's \<Rightarrow> 's layer \<Rightarrow> bool" where
  "layer_ok rnd N s l = (case layer_deltas rnd N s l of Inl err \<Rightarrow> False | Inr _ \<Rightarrow> True)"

definition layer_ds :: "(real \<Rightarrow> real) \<Rightarrow> nat \<Rightarrow> 's \<Rightarrow> 's layer \<Rightarrow> real list list" where
  "layer_ds rnd N s l = (case layer_deltas rnd N s l of Inl err \<Rightarrow> [] | Inr (ds, _) \<Rightarrow> ds)"

definition layer_state :: "(real \<Rightarrow> real) \<Rightarrow> nat \<Rightarrow> 's \<Rightarrow> 's layer \<Rightarrow> 's" where
  "layer_state rnd N s l = (case layer_deltas rnd N s l of Inl err \<Rightarrow> s | Inr (_, s1) \<Rightarrow> s1)"

text \<open>
  The contributions of all the events of a list of layers, and the mass at sample \<open>j\<close>:
  the absolute value of the sample of the buffer plus those of all the contributions to
  it.
\<close>

definition mix_deltas :: "(real \<Rightarrow> real) \<Rightarrow> nat \<Rightarrow> 's \<Rightarrow> 's layer list \<Rightarrow> real list list" where
  "mix_deltas rnd N s ls = concat (map (layer_ds rnd N s) ls)"

definition sample_mass :: "real list \<Rightarrow> real list list \<Rightarrow> nat \<Rightarrow> real" where
  "sample_mass buf ds j = \<bar>buf ! j\<bar> + sum_list (map (\<lambda>d. \<bar>d ! j\<bar>) ds)"

section \<open>Rounding to binary64\<close>

lemma pow2_pos: "0 < pow2 k"
  by (simp add: pow2_def)

lemma pow2_powr: "pow2 k = 2 powr (of_int k)"
proof (cases "0 \<le> k")
  case True
  then have "real_of_int k = real (nat k)" by simp
  then have "2 powr (of_int k) = (2::real) powr real (nat k)" by (rule arg_cong)
  also have "\<dots> = 2 ^ nat k" by (simp add: powr_realpow)
  finally show ?thesis using True by (simp add: pow2_def)
next
  case False
  then have "real_of_int k = - real (nat (- k))" by simp
  then have "2 powr (of_int k) = (2::real) powr (- real (nat (- k)))" by (rule arg_cong)
  also have "\<dots> = 1 / 2 ^ nat (- k)"
    by (simp add: powr_minus powr_realpow inverse_eq_divide)
  finally show ?thesis using False by (simp add: pow2_def)
qed

lemma pow2_add: "pow2 (a + b) = pow2 a * pow2 b"
  by (simp add: pow2_powr powr_add)

lemma pow2_less_iff: "pow2 a < pow2 b \<longleftrightarrow> a < b"
  by (simp add: pow2_powr)

lemma pow2_le_iff: "pow2 a \<le> pow2 b \<longleftrightarrow> a \<le> b"
  by (simp add: pow2_powr)

lemma pow2_of_nat: "pow2 (int n) = 2 ^ n"
  by (simp add: pow2_def)

lemma pow2_diff: "pow2 (a - b) = pow2 a / pow2 b"
proof -
  have "pow2 a = pow2 (a - b) * pow2 b" using pow2_add [of "a - b" b] by simp
  then show ?thesis using pow2_pos [of b] by simp
qed

lemma pow2_split53: "pow2 (k + 1) = pow2 53 * pow2 (k - 52)"
proof -
  have "k + 1 = 53 + (k - 52)" by simp
  then show ?thesis by (simp only: pow2_add)
qed

lemma f64_exponent_eq:
  assumes "pow2 k \<le> \<bar>x\<bar>" and "\<bar>x\<bar> < pow2 (k + 1)"
  shows "f64_exponent x = k"
proof -
  have "0 < pow2 k" by (rule pow2_pos)
  then have pos: "0 < \<bar>x\<bar>" using assms(1) by linarith
  have "2 powr (of_int k) \<le> \<bar>x\<bar> \<and> \<bar>x\<bar> < 2 powr (of_int (k + 1))"
    using assms by (simp add: pow2_powr)
  then show ?thesis
    unfolding f64_exponent_def using floor_log_eq_powr_iff [OF pos, of 2 k] by simp
qed

lemma f64_exponent_bounds:
  assumes "x \<noteq> 0"
  shows "pow2 (f64_exponent x) \<le> \<bar>x\<bar>" and "\<bar>x\<bar> < pow2 (f64_exponent x + 1)"
proof -
  have pos: "0 < \<bar>x\<bar>" using assms by simp
  have "2 powr (of_int (f64_exponent x)) \<le> \<bar>x\<bar>
        \<and> \<bar>x\<bar> < 2 powr (of_int (f64_exponent x) + 1)"
    using floor_log_eq_powr_iff [OF pos, of 2 "f64_exponent x"]
    by (simp add: f64_exponent_def)
  then show "pow2 (f64_exponent x) \<le> \<bar>x\<bar>" and "\<bar>x\<bar> < pow2 (f64_exponent x + 1)"
    by (simp_all add: pow2_powr)
qed

lemma f64_eval:
  assumes "pow2 k \<le> \<bar>x\<bar>" and "\<bar>x\<bar> < pow2 (k + 1)"
  shows "f64 x = of_int (round_half_even (x / pow2 (k - 52))) * pow2 (k - 52)"
proof -
  have "0 < pow2 k" by (rule pow2_pos)
  then have "x \<noteq> 0" using assms(1) by auto
  then show ?thesis by (simp add: f64_def Let_def f64_exponent_eq [OF assms])
qed

lemma f64_zero: "f64 0 = 0"
  by (simp add: f64_def)

lemma round_half_even_error: "\<bar>real_of_int (round_half_even y) - y\<bar> \<le> 1 / 2"
proof -
  have "real_of_int \<lfloor>y\<rfloor> \<le> y" "y < real_of_int \<lfloor>y\<rfloor> + 1" by linarith+
  then show ?thesis by (auto simp: round_half_even_def Let_def)
qed

lemma round_half_even_of_int: "round_half_even (real_of_int n) = n"
  by (simp add: round_half_even_def)

lemma f64_rel_error: "\<bar>f64 x - x\<bar> \<le> \<bar>x\<bar> / 2 ^ 53"
proof (cases "x = 0")
  case True then show ?thesis by (simp add: f64_def)
next
  case False
  define e where "e = f64_exponent x"
  define u where "u = pow2 (e - 52)"
  have u: "0 < u" by (simp add: u_def pow2_pos)
  have fx: "f64 x = of_int (round_half_even (x / u)) * u"
    using False by (simp add: f64_def Let_def u_def e_def)
  have "f64 x - x = (of_int (round_half_even (x / u)) - x / u) * u"
    using u by (simp add: fx field_simps)
  then have "\<bar>f64 x - x\<bar> = \<bar>of_int (round_half_even (x / u)) - x / u\<bar> * u"
    using u by (simp add: abs_mult)
  also have "\<dots> \<le> 1 / 2 * u"
    using round_half_even_error [of "x / u"] u by (intro mult_right_mono) simp_all
  also have "\<dots> = pow2 e / 2 ^ 53"
  proof -
    have "pow2 e = pow2 (e - 52) * pow2 52" using pow2_add [of "e - 52" 52] by simp
    also have "pow2 52 = 2 ^ 52" using pow2_of_nat [of 52] by simp
    finally show ?thesis by (simp add: u_def)
  qed
  also have "\<dots> \<le> \<bar>x\<bar> / 2 ^ 53"
    using f64_exponent_bounds(1) [OF False] by (simp add: e_def divide_right_mono)
  finally show ?thesis .
qed

lemma f64_representable:
  assumes "\<bar>m\<bar> < 2 ^ 53"
  shows "f64 (real_of_int m * pow2 e) = real_of_int m * pow2 e"
proof (cases "m = 0")
  case True then show ?thesis by (simp add: f64_def)
next
  case False
  define x where "x = real_of_int m * pow2 e"
  define k where "k = f64_exponent x"
  have x0: "x \<noteq> 0" using False pow2_pos [of e] by (simp add: x_def)
  have absx: "\<bar>x\<bar> = real_of_int \<bar>m\<bar> * pow2 e"
    using pow2_pos [of e] by (simp add: x_def abs_mult)
  have "real_of_int \<bar>m\<bar> < 2 ^ 53" using assms by (metis of_int_less_numeral_power_cancel_iff)
  then have "\<bar>x\<bar> < 2 ^ 53 * pow2 e"
    unfolding absx using pow2_pos [of e] by (intro mult_strict_right_mono)
  also have "\<dots> = pow2 (53 + e)" using pow2_add [of 53 e] pow2_of_nat [of 53] by simp
  finally have "pow2 k < pow2 (53 + e)"
    using f64_exponent_bounds(1) [OF x0] by (simp add: k_def)
  then have kle: "k - 52 \<le> e" by (simp add: pow2_less_iff)
  define n where "n = nat (e - (k - 52))"
  have "pow2 e = pow2 (int n) * pow2 (k - 52)"
    using pow2_add [of "int n" "k - 52"] kle by (simp add: n_def)
  then have pe: "pow2 e = 2 ^ n * pow2 (k - 52)" by (simp add: pow2_of_nat)
  have u: "0 < pow2 (k - 52)" by (rule pow2_pos)
  have "x / pow2 (k - 52) = real_of_int (m * 2 ^ n)"
    using u by (simp add: x_def pe)
  then have "round_half_even (x / pow2 (k - 52)) = m * 2 ^ n"
    by (simp only: round_half_even_of_int)
  then have "f64 x = real_of_int (m * 2 ^ n) * pow2 (k - 52)"
    using x0 by (simp add: f64_def Let_def k_def)
  also have "\<dots> = x" by (simp add: x_def pe)
  finally show ?thesis by (simp add: x_def)
qed

lemma f64_dyadic:
  assumes "\<bar>m\<bar> < 2 ^ 53"
  shows "f64 (real_of_int m / 2 ^ n) = real_of_int m / 2 ^ n"
proof -
  have "pow2 (- int n) = 1 / 2 ^ n"
    using pow2_diff [of 0 "int n"] by (simp add: pow2_of_nat pow2_def)
  then show ?thesis using f64_representable [OF assms, of "- int n"] by simp
qed

lemma f64_times_pow2:
  assumes "\<bar>m\<bar> < 2 ^ 53"
  shows "f64 (real_of_int m * 2 ^ n) = real_of_int m * 2 ^ n"
  using f64_representable [OF assms, of "int n"] by (simp add: pow2_of_nat)

lemma f64_range:
  assumes "x \<noteq> 0"
  shows "\<exists>m. f64 x = real_of_int m * pow2 (f64_exponent x - 52) \<and> \<bar>m\<bar> \<le> 2 ^ 53"
proof -
  define k where "k = f64_exponent x"
  define u where "u = pow2 (k - 52)"
  define m where "m = round_half_even (x / u)"
  have u: "0 < u" by (simp add: u_def pow2_pos)
  have fx: "f64 x = real_of_int m * u"
    using assms by (simp add: f64_def Let_def u_def k_def m_def)
  have "pow2 (k + 1) = pow2 (k - 52) * pow2 53" by (simp add: pow2_split53)
  then have "\<bar>x\<bar> < u * 2 ^ 53"
    using f64_exponent_bounds(2) [OF assms] pow2_of_nat [of 53] by (simp add: k_def u_def)
  then have "\<bar>x\<bar> / u < 2 ^ 53" using u by (simp add: field_simps)
  then have xu: "\<bar>x / u\<bar> < 2 ^ 53" using u by (simp add: abs_divide)
  have "\<bar>real_of_int m\<bar> \<le> \<bar>real_of_int m - x / u\<bar> + \<bar>x / u\<bar>" by linarith
  also have "\<dots> < 1 / 2 + 2 ^ 53"
    using round_half_even_error [of "x / u"] xu by (simp add: m_def)
  finally have "real_of_int \<bar>m\<bar> < real_of_int (2 ^ 53) + 1 / 2" by simp
  then have "real_of_int \<bar>m\<bar> < real_of_int (2 ^ 53 + 1)" by simp
  then have "\<bar>m\<bar> < 2 ^ 53 + 1" by (simp only: of_int_less_iff)
  then have "\<bar>m\<bar> \<le> 2 ^ 53" by simp
  with fx show ?thesis unfolding u_def k_def by blast
qed

lemma f64_idem: "f64 (f64 x) = f64 x"
proof (cases "x = 0")
  case True then show ?thesis by (simp add: f64_def)
next
  case False
  from f64_range [OF False] obtain m where
    fx: "f64 x = real_of_int m * pow2 (f64_exponent x - 52)" and m: "\<bar>m\<bar> \<le> 2 ^ 53" by blast
  show ?thesis
  proof (cases "\<bar>m\<bar> < 2 ^ 53")
    case True
    then show ?thesis unfolding fx by (rule f64_representable)
  next
    case False
    with m have am: "\<bar>m\<bar> = 2 ^ 53" by simp
    define s :: int where "s = (if 0 \<le> m then 1 else - 1)"
    have ms: "m = s * 2 ^ 53" using am by (auto simp: s_def abs_if split: if_splits)
    have s1: "\<bar>s\<bar> < 2 ^ 53" by (simp add: s_def)
    have "pow2 (f64_exponent x + 1) = pow2 53 * pow2 (f64_exponent x - 52)"
      by (rule pow2_split53)
    then have "f64 x = real_of_int s * pow2 (f64_exponent x + 1)"
      unfolding fx ms using pow2_of_nat [of 53] by simp
    then show ?thesis using f64_representable [OF s1, of "f64_exponent x + 1"] by simp
  qed
qed

lemma f64_exponent_mono:
  assumes "0 < a" and "a \<le> b"
  shows "f64_exponent a \<le> f64_exponent b"
proof -
  have "log 2 a \<le> log 2 b" using assms by simp
  then show ?thesis
    using assms unfolding f64_exponent_def by (simp add: floor_mono)
qed

lemma f64_fixed_multiple:
  assumes "f64 a = a" and "a \<noteq> 0"
  shows "\<exists>m. a = real_of_int m * pow2 (f64_exponent a - 52)"
proof -
  have "f64 a = real_of_int (round_half_even (a / pow2 (f64_exponent a - 52)))
                  * pow2 (f64_exponent a - 52)"
    using assms(2) by (simp add: f64_def Let_def)
  then show ?thesis using assms(1) by metis
qed

lemma f64_sterbenz:
  assumes fa: "f64 a = a" and fb: "f64 b = b" and ab: "a \<le> b" and b2a: "b \<le> 2 * a"
  shows "f64 (b - a) = b - a"
proof (cases "a = 0")
  case True
  with ab b2a have "b = 0" by simp
  with True show ?thesis by (simp add: f64_def)
next
  case False
  have apos: "0 < a" using ab b2a False by linarith
  then have bpos: "0 < b" using ab by linarith
  define ea where "ea = f64_exponent a"
  define eb where "eb = f64_exponent b"
  define ua where "ua = pow2 (ea - 52)"
  have ua: "0 < ua" by (simp add: ua_def pow2_pos)
  from f64_fixed_multiple [OF fa False] obtain ma where
    a: "a = real_of_int ma * ua" by (auto simp: ua_def ea_def)
  from f64_fixed_multiple [OF fb] bpos obtain mb where
    b: "b = real_of_int mb * pow2 (eb - 52)" by (auto simp: eb_def)
  have le: "ea \<le> eb" unfolding ea_def eb_def using apos ab by (rule f64_exponent_mono)
  define n where "n = nat (eb - ea)"
  have "pow2 (eb - 52) = pow2 (int n) * pow2 (ea - 52)"
    using pow2_add [of "int n" "ea - 52"] le by (simp add: n_def)
  then have ub: "pow2 (eb - 52) = 2 ^ n * ua" by (simp add: pow2_of_nat ua_def)
  define M where "M = mb * 2 ^ n - ma"
  have diff: "b - a = real_of_int M * ua"
    unfolding a b ub M_def by (simp add: algebra_simps)
  have "0 \<le> real_of_int M * ua" using ab diff by simp
  then have M0: "0 \<le> M" using ua by (simp add: zero_le_mult_iff)
  have "real_of_int M * ua \<le> real_of_int ma * ua" using b2a diff a by linarith
  then have "real_of_int M \<le> real_of_int ma" using ua by simp
  then have Mle: "M \<le> ma" by simp
  have "pow2 (ea + 1) = pow2 53 * pow2 (ea - 52)" by (rule pow2_split53)
  then have "a < 2 ^ 53 * ua"
    using f64_exponent_bounds(2) [OF False] apos pow2_of_nat [of 53] by (simp add: ea_def ua_def)
  then have "real_of_int ma < 2 ^ 53" using ua by (simp add: a)
  then have "real_of_int ma < real_of_int (2 ^ 53)" by simp
  then have "ma < 2 ^ 53" by (simp only: of_int_less_iff)
  with M0 Mle have "\<bar>M\<bar> < 2 ^ 53" by simp
  then show ?thesis unfolding diff ua_def by (rule f64_representable)
qed

lemma exact_rel_rounding: "rel_rounding 0 exact"
  by (simp add: rel_rounding_def exact_def)

lemma f64_rel_rounding: "rel_rounding (1 / 2 ^ 53) f64"
  unfolding rel_rounding_def using f64_rel_error by (simp add: mult.commute)

lemma f64_float_rounding: "float_rounding (1 / 2 ^ 53) f64"
  unfolding float_rounding_def using f64_rel_rounding f64_idem f64_sterbenz by blast

lemma exact_float_rounding: "float_rounding 0 exact"
  by (simp add: float_rounding_def exact_rel_rounding) (simp add: exact_def)

lemma f64_dyadic_exact: "dyadic_exact f64"
  unfolding dyadic_exact_def using f64_dyadic by blast

lemma exact_dyadic_exact: "dyadic_exact exact"
  by (simp add: dyadic_exact_def exact_def)

text \<open>What a rounding with a bounded relative error keeps: zero, signs, and the size.\<close>

lemma rel_rounding_zero: "rel_rounding u rnd \<Longrightarrow> rnd 0 = 0"
  unfolding rel_rounding_def by (metis abs_zero mult_zero_right abs_le_zero_iff diff_zero)

lemma rel_rounding_bounds:
  assumes "rel_rounding u rnd" and "0 \<le> x"
  shows "x * (1 - u) \<le> rnd x" and "rnd x \<le> x * (1 + u)"
proof -
  from assms(1) have "\<bar>rnd x - x\<bar> \<le> u * \<bar>x\<bar>" by (simp add: rel_rounding_def)
  then have "\<bar>rnd x - x\<bar> \<le> u * x" using assms(2) by simp
  then show "x * (1 - u) \<le> rnd x" and "rnd x \<le> x * (1 + u)"
    by (simp_all add: algebra_simps abs_le_iff)
qed

lemma rel_rounding_nonneg:
  assumes "rel_rounding u rnd" and "0 \<le> x"
  shows "0 \<le> rnd x"
proof -
  have "u \<le> 1" using assms(1) by (simp add: rel_rounding_def)
  then have "0 \<le> x * (1 - u)" using assms(2) by simp
  with rel_rounding_bounds(1) [OF assms] show ?thesis by linarith
qed

lemma rel_rounding_pos:
  assumes "rel_rounding u rnd" and "0 < x"
  shows "0 < rnd x"
proof -
  have "u < 1" using assms(1) by (simp add: rel_rounding_def)
  then have "0 < x * (1 - u)" using assms(2) by simp
  moreover have "x * (1 - u) \<le> rnd x" using rel_rounding_bounds(1) [OF assms(1)] assms(2) by simp
  ultimately show ?thesis by linarith
qed

lemma rel_rounding_abs:
  assumes "rel_rounding u rnd"
  shows "\<bar>rnd x\<bar> \<le> \<bar>x\<bar> * (1 + u)" and "\<bar>x\<bar> * (1 - u) \<le> \<bar>rnd x\<bar>"
proof -
  from assms have e: "\<bar>rnd x - x\<bar> \<le> u * \<bar>x\<bar>" by (simp add: rel_rounding_def)
  have "\<bar>rnd x\<bar> \<le> \<bar>x\<bar> + \<bar>rnd x - x\<bar>" by linarith
  with e show "\<bar>rnd x\<bar> \<le> \<bar>x\<bar> * (1 + u)" by (simp add: algebra_simps)
  have "\<bar>x\<bar> \<le> \<bar>rnd x\<bar> + \<bar>rnd x - x\<bar>" by linarith
  with e show "\<bar>x\<bar> * (1 - u) \<le> \<bar>rnd x\<bar>" by (simp add: algebra_simps)
qed

text \<open>Roundings of the numbers that the worked examples below run into, each computed from the
  definition.\<close>

lemma f64_val_1: "f64 (1) = 1"
  by (subst f64_eval [of "0"]) (simp_all add: pow2_def round_half_even_def Let_def)

lemma f64_val_2: "f64 (2) = 2"
  by (subst f64_eval [of "1"]) (simp_all add: pow2_def round_half_even_def Let_def)

lemma f64_val_4: "f64 (4) = 4"
  by (subst f64_eval [of "2"]) (simp_all add: pow2_def round_half_even_def Let_def)

lemma f64_val_5: "f64 (5) = 5"
  by (subst f64_eval [of "2"]) (simp_all add: pow2_def round_half_even_def Let_def)

lemma f64_val_6: "f64 (6) = 6"
  by (subst f64_eval [of "2"]) (simp_all add: pow2_def round_half_even_def Let_def)

lemma f64_val_8: "f64 (8) = 8"
  by (subst f64_eval [of "3"]) (simp_all add: pow2_def round_half_even_def Let_def)

lemma f64_val_32: "f64 (32) = 32"
  by (subst f64_eval [of "5"]) (simp_all add: pow2_def round_half_even_def Let_def)

lemma f64_val_44: "f64 (44) = 44"
  by (subst f64_eval [of "5"]) (simp_all add: pow2_def round_half_even_def Let_def)

lemma f64_val_10: "f64 (10) = 10"
  by (subst f64_eval [of "3"]) (simp_all add: pow2_def round_half_even_def Let_def)

lemma f64_val_20: "f64 (20) = 20"
  by (subst f64_eval [of "4"]) (simp_all add: pow2_def round_half_even_def Let_def)

lemma f64_val_30: "f64 (30) = 30"
  by (subst f64_eval [of "4"]) (simp_all add: pow2_def round_half_even_def Let_def)

lemma f64_val_40: "f64 (40) = 40"
  by (subst f64_eval [of "5"]) (simp_all add: pow2_def round_half_even_def Let_def)

lemma f64_val_3: "f64 (3) = 3"
  by (subst f64_eval [of "1"]) (simp_all add: pow2_def round_half_even_def Let_def)

lemma f64_val_11025_4096: "f64 (11025 / 4096) = 11025 / 4096"
  by (subst f64_eval [of "1"]) (simp_all add: pow2_def round_half_even_def Let_def)

lemma f64_val_11025_2048: "f64 (11025 / 2048) = 11025 / 2048"
  by (subst f64_eval [of "2"]) (simp_all add: pow2_def round_half_even_def Let_def)

lemma f64_val_11025_8192: "f64 (11025 / 8192) = 11025 / 8192"
  by (subst f64_eval [of "0"]) (simp_all add: pow2_def round_half_even_def Let_def)

lemma f64_val_11025_16384: "f64 (11025 / 16384) = 11025 / 16384"
  by (subst f64_eval [of "- 1"]) (simp_all add: pow2_def round_half_even_def Let_def)

lemma f64_val_165375_32: "f64 (165375 / 32) = 165375 / 32"
  by (subst f64_eval [of "12"]) (simp_all add: pow2_def round_half_even_def Let_def)

lemma f64_val_2_5: "f64 (2 / 5) = 3602879701896397 / 9007199254740992"
  by (subst f64_eval [of "- 2"]) (simp_all add: pow2_def round_half_even_def Let_def)

lemma f64_val_1_2: "f64 (1 / 2) = 1 / 2"
  by (subst f64_eval [of "- 1"]) (simp_all add: pow2_def round_half_even_def Let_def)

lemma f64_val_3602879701896397_18014398509481984: "f64 (3602879701896397 / 18014398509481984) = 3602879701896397 / 18014398509481984"
  by (subst f64_eval [of "- 3"]) (simp_all add: pow2_def round_half_even_def Let_def)

lemma f64_val_15_28: "f64 (15 / 28) = 4825285315039817 / 9007199254740992"
  by (subst f64_eval [of "- 1"]) (simp_all add: pow2_def round_half_even_def Let_def)

lemma f64_val_53198770598313982425_2251799813685248: "f64 (53198770598313982425 / 2251799813685248) = 23625"
  by (subst f64_eval [of "14"]) (simp_all add: pow2_def round_half_even_def Let_def)

lemma f64_val_882000: "f64 (882000) = 882000"
  by (subst f64_eval [of "19"]) (simp_all add: pow2_def round_half_even_def Let_def)

lemma f64_val_m44100: "f64 (- 44100) = - 44100"
  by (subst f64_eval [of "15"]) (simp_all add: pow2_def round_half_even_def Let_def)

lemma f64_val_9_10: "f64 (9 / 10) = 8106479329266893 / 9007199254740992"
  by (subst f64_eval [of "- 1"]) (simp_all add: pow2_def round_half_even_def Let_def)

lemma f64_val_1_8: "f64 (1 / 8) = 1 / 8"
  by (subst f64_eval [of "- 3"]) (simp_all add: pow2_def round_half_even_def Let_def)

lemma f64_val_5_8: "f64 (5 / 8) = 5 / 8"
  by (subst f64_eval [of "- 1"]) (simp_all add: pow2_def round_half_even_def Let_def)

lemma f64_val_9_8: "f64 (9 / 8) = 9 / 8"
  by (subst f64_eval [of "0"]) (simp_all add: pow2_def round_half_even_def Let_def)

lemma f64_val_3_2: "f64 (3 / 2) = 3 / 2"
  by (subst f64_eval [of "0"]) (simp_all add: pow2_def round_half_even_def Let_def)

lemma f64_val_13_8: "f64 (13 / 8) = 13 / 8"
  by (subst f64_eval [of "0"]) (simp_all add: pow2_def round_half_even_def Let_def)

lemma f64_val_2_25: "f64 (2 / 25) = 5764607523034235 / 72057594037927936"
  by (subst f64_eval [of "- 4"]) (simp_all add: pow2_def round_half_even_def Let_def)

lemma f64_val_3_50: "f64 (3 / 50) = 1080863910568919 / 18014398509481984"
  by (subst f64_eval [of "- 5"]) (simp_all add: pow2_def round_half_even_def Let_def)

lemma f64_val_1_25: "f64 (1 / 25) = 5764607523034235 / 144115188075855872"
  by (subst f64_eval [of "- 5"]) (simp_all add: pow2_def round_half_even_def Let_def)

lemma f64_val_1_20: "f64 (1 / 20) = 3602879701896397 / 72057594037927936"
  by (subst f64_eval [of "- 5"]) (simp_all add: pow2_def round_half_even_def Let_def)

lemma f64_val_1_10: "f64 (1 / 10) = 3602879701896397 / 36028797018963968"
  by (subst f64_eval [of "- 4"]) (simp_all add: pow2_def round_half_even_def Let_def)

lemma f64_val_15_29: "f64 (15 / 29) = 4658896166245341 / 9007199254740992"
  by (subst f64_eval [of "- 1"]) (simp_all add: pow2_def round_half_even_def Let_def)

lemma f64_val_45035996273704960_1552965388748447: "f64 (45035996273704960 / 1552965388748447) = 8162774324609023 / 281474976710656"
  by (subst f64_eval [of "4"]) (simp_all add: pow2_def round_half_even_def Let_def)

lemma f64_val_15: "f64 (15) = 15"
  by (subst f64_eval [of "3"]) (simp_all add: pow2_def round_half_even_def Let_def)

lemma f64_val_15_32: "f64 (15 / 32) = 15 / 32"
  by (subst f64_eval [of "- 2"]) (simp_all add: pow2_def round_half_even_def Let_def)

lemma f64_val_13: "f64 (13) = 13"
  by (subst f64_eval [of "3"]) (simp_all add: pow2_def round_half_even_def Let_def)

lemma f64_val_11: "f64 (11) = 11"
  by (subst f64_eval [of "3"]) (simp_all add: pow2_def round_half_even_def Let_def)

lemma f64_val_9: "f64 (9) = 9"
  by (subst f64_eval [of "3"]) (simp_all add: pow2_def round_half_even_def Let_def)

lemma f64_val_7: "f64 (7) = 7"
  by (subst f64_eval [of "2"]) (simp_all add: pow2_def round_half_even_def Let_def)

lemma f64_val_12: "f64 (12) = 12"
  by (subst f64_eval [of "3"]) (simp_all add: pow2_def round_half_even_def Let_def)

lemma f64_val_14: "f64 (14) = 14"
  by (subst f64_eval [of "3"]) (simp_all add: pow2_def round_half_even_def Let_def)

lemma f64_val_16: "f64 (16) = 16"
  by (subst f64_eval [of "4"]) (simp_all add: pow2_def round_half_even_def Let_def)

lemma f64_val_4825285315039817_2251799813685248: "f64 (4825285315039817 / 2251799813685248) = 4825285315039817 / 2251799813685248"
  by (subst f64_eval [of "1"]) (simp_all add: pow2_def round_half_even_def Let_def)

lemma f64_val_28951711890238903_2251799813685248: "f64 (28951711890238903 / 2251799813685248) = 3618963986279863 / 281474976710656"
  by (subst f64_eval [of "3"]) (simp_all add: pow2_def round_half_even_def Let_def)

lemma f64_val_4825285315039817_1125899906842624: "f64 (4825285315039817 / 1125899906842624) = 4825285315039817 / 1125899906842624"
  by (subst f64_eval [of "2"]) (simp_all add: pow2_def round_half_even_def Let_def)

lemma f64_val_12063213287599543_1125899906842624: "f64 (12063213287599543 / 1125899906842624) = 1507901660949943 / 140737488355328"
  by (subst f64_eval [of "3"]) (simp_all add: pow2_def round_half_even_def Let_def)

lemma f64_val_14475855945119451_2251799813685248: "f64 (14475855945119451 / 2251799813685248) = 3618963986279863 / 562949953421312"
  by (subst f64_eval [of "2"]) (simp_all add: pow2_def round_half_even_def Let_def)

lemma f64_val_4825285315039817_562949953421312: "f64 (4825285315039817 / 562949953421312) = 4825285315039817 / 562949953421312"
  by (subst f64_eval [of "3"]) (simp_all add: pow2_def round_half_even_def Let_def)

lemma f64_val_19301141260159269_2251799813685248: "f64 (19301141260159269 / 2251799813685248) = 4825285315039817 / 562949953421312"
  by (subst f64_eval [of "3"]) (simp_all add: pow2_def round_half_even_def Let_def)

lemma f64_val_3618963986279863_562949953421312: "f64 (3618963986279863 / 562949953421312) = 3618963986279863 / 562949953421312"
  by (subst f64_eval [of "2"]) (simp_all add: pow2_def round_half_even_def Let_def)

lemma f64_val_24126426575199085_2251799813685248: "f64 (24126426575199085 / 2251799813685248) = 6031606643799771 / 562949953421312"
  by (subst f64_eval [of "3"]) (simp_all add: pow2_def round_half_even_def Let_def)

lemma f64_val_2412642657519909_562949953421312: "f64 (2412642657519909 / 562949953421312) = 2412642657519909 / 562949953421312"
  by (subst f64_eval [of "2"]) (simp_all add: pow2_def round_half_even_def Let_def)

lemma f64_val_28951711890238901_2251799813685248: "f64 (28951711890238901 / 2251799813685248) = 7237927972559725 / 562949953421312"
  by (subst f64_eval [of "3"]) (simp_all add: pow2_def round_half_even_def Let_def)

lemma f64_val_1206321328759955_562949953421312: "f64 (1206321328759955 / 562949953421312) = 1206321328759955 / 562949953421312"
  by (subst f64_eval [of "1"]) (simp_all add: pow2_def round_half_even_def Let_def)

lemma f64_val_33776997205278717_2251799813685248: "f64 (33776997205278717 / 2251799813685248) = 8444249301319679 / 562949953421312"
  by (subst f64_eval [of "3"]) (simp_all add: pow2_def round_half_even_def Let_def)

lemma f64_val_1_562949953421312: "f64 (1 / 562949953421312) = 1 / 562949953421312"
  by (subst f64_eval [of "- 49"]) (simp_all add: pow2_def round_half_even_def Let_def)

lemma f64_val_15_1152921504606846976: "f64 (15 / 1152921504606846976) = 15 / 1152921504606846976"
  by (subst f64_eval [of "- 57"]) (simp_all add: pow2_def round_half_even_def Let_def)

lemma f64_val_15_288230376151711744: "f64 (15 / 288230376151711744) = 15 / 288230376151711744"
  by (subst f64_eval [of "- 55"]) (simp_all add: pow2_def round_half_even_def Let_def)

lemma f64_val_1_5: "f64 (1 / 5) = 3602879701896397 / 18014398509481984"
  by (subst f64_eval [of "- 3"]) (simp_all add: pow2_def round_half_even_def Let_def)

lemma f64_val_3_10: "f64 (3 / 10) = 5404319552844595 / 18014398509481984"
  by (subst f64_eval [of "- 2"]) (simp_all add: pow2_def round_half_even_def Let_def)

lemma f64_val_3602879701896397_36028797018963968: "f64 (3602879701896397 / 36028797018963968) = 3602879701896397 / 36028797018963968"
  by (subst f64_eval [of "- 4"]) (simp_all add: pow2_def round_half_even_def Let_def)

lemma f64_val_5404319552844595_18014398509481984: "f64 (5404319552844595 / 18014398509481984) = 5404319552844595 / 18014398509481984"
  by (subst f64_eval [of "- 2"]) (simp_all add: pow2_def round_half_even_def Let_def)

lemma f64_val_10808639105689191_36028797018963968: "f64 (10808639105689191 / 36028797018963968) = 1351079888211149 / 4503599627370496"
  by (subst f64_eval [of "- 2"]) (simp_all add: pow2_def round_half_even_def Let_def)

lemma f64_val_10808639105689191_18014398509481984: "f64 (10808639105689191 / 18014398509481984) = 1351079888211149 / 2251799813685248"
  by (subst f64_eval [of "- 1"]) (simp_all add: pow2_def round_half_even_def Let_def)

lemma f64_val_21617278211378381_36028797018963968: "f64 (21617278211378381 / 36028797018963968) = 5404319552844595 / 9007199254740992"
  by (subst f64_eval [of "- 1"]) (simp_all add: pow2_def round_half_even_def Let_def)

lemmas f64_table =
  f64_zero f64_val_1
  f64_val_2
  f64_val_4
  f64_val_5
  f64_val_6
  f64_val_8
  f64_val_32
  f64_val_44
  f64_val_10
  f64_val_20
  f64_val_30
  f64_val_40
  f64_val_3
  f64_val_11025_4096
  f64_val_11025_2048
  f64_val_11025_8192
  f64_val_11025_16384
  f64_val_165375_32
  f64_val_2_5
  f64_val_1_2
  f64_val_3602879701896397_18014398509481984
  f64_val_15_28
  f64_val_53198770598313982425_2251799813685248
  f64_val_882000
  f64_val_m44100
  f64_val_9_10
  f64_val_1_8
  f64_val_5_8
  f64_val_9_8
  f64_val_3_2
  f64_val_13_8
  f64_val_2_25
  f64_val_3_50
  f64_val_1_25
  f64_val_1_20
  f64_val_1_10
  f64_val_15_29
  f64_val_45035996273704960_1552965388748447
  f64_val_15
  f64_val_15_32
  f64_val_13
  f64_val_11
  f64_val_9
  f64_val_7
  f64_val_12
  f64_val_14
  f64_val_16
  f64_val_4825285315039817_2251799813685248
  f64_val_28951711890238903_2251799813685248
  f64_val_4825285315039817_1125899906842624
  f64_val_12063213287599543_1125899906842624
  f64_val_14475855945119451_2251799813685248
  f64_val_4825285315039817_562949953421312
  f64_val_19301141260159269_2251799813685248
  f64_val_3618963986279863_562949953421312
  f64_val_24126426575199085_2251799813685248
  f64_val_2412642657519909_562949953421312
  f64_val_28951711890238901_2251799813685248
  f64_val_1206321328759955_562949953421312
  f64_val_33776997205278717_2251799813685248
  f64_val_1_562949953421312
  f64_val_15_1152921504606846976
  f64_val_15_288230376151711744
  f64_val_1_5
  f64_val_3_10
  f64_val_3602879701896397_36028797018963968
  f64_val_5404319552844595_18014398509481984
  f64_val_10808639105689191_36028797018963968
  f64_val_10808639105689191_18014398509481984
  f64_val_21617278211378381_36028797018963968

section \<open>The normalizer\<close>

lemma fold_max_ge: "a \<le> fold max xs (a::real)"
proof (induction xs arbitrary: a)
  case Nil show ?case by simp
next
  case (Cons x xs)
  have "a \<le> max x a" by simp
  also have "\<dots> \<le> fold max xs (max x a)" by (rule Cons.IH)
  finally show ?case by simp
qed

lemma peak_nonneg: "0 \<le> peak xs"
  unfolding peak_def by (rule fold_max_ge)

lemma fold_np_maximum_Fin:
  "fold np_maximum (map np_abs (map Fin xs)) (Fin a) = Fin (fold max (map abs xs) a)"
  by (induction xs arbitrary: a) (simp_all add: max.commute)

lemma np_max_abs_Fin:
  assumes "buf \<noteq> []"
  shows "np_max (map np_abs (map Fin buf)) = Inr (Fin (peak buf))"
proof -
  from assms obtain x xs where buf: "buf = x # xs" by (cases buf) auto
  have "max \<bar>x\<bar> 0 = \<bar>x\<bar>" by simp
  then show ?thesis
    unfolding buf peak_def by (simp add: fold_np_maximum_Fin del: map_map)
qed

lemma fold_max_scale:
  assumes "0 \<le> (c::real)"
  shows "fold max (map abs (map (\<lambda>x. x * c) xs)) (a * c) = fold max (map abs xs) a * c"
proof (induction xs arbitrary: a)
  case Nil show ?case by simp
next
  case (Cons x xs)
  have "max \<bar>x * c\<bar> (a * c) = max \<bar>x\<bar> a * c"
    using assms by (simp add: abs_mult max_mult_distrib_right)
  then show ?case using Cons.IH [of "max \<bar>x\<bar> a"] by simp
qed

lemma peak_scale: "0 \<le> c \<Longrightarrow> peak (map (\<lambda>x. x * c) xs) = peak xs * c"
  unfolding peak_def using fold_max_scale [of c xs 0] by simp

lemma fold_max_mem: "x \<in> set xs \<Longrightarrow> x \<le> fold max xs (a::real)"
proof (induction xs arbitrary: a)
  case Nil then show ?case by simp
next
  case (Cons y ys)
  show ?case
  proof (cases "x = y")
    case True
    have "x \<le> max y a" using True by simp
    also have "\<dots> \<le> fold max ys (max y a)" by (rule fold_max_ge)
    finally show ?thesis by simp
  next
    case False
    with Cons.prems have "x \<in> set ys" by simp
    then show ?thesis using Cons.IH by simp
  qed
qed

lemma peak_zero_all_zero:
  assumes "peak xs = 0" and "x \<in> set xs"
  shows "x = 0"
proof -
  have "\<bar>x\<bar> \<in> set (map abs xs)" using assms(2) by simp
  then have "\<bar>x\<bar> \<le> peak xs" unfolding peak_def by (rule fold_max_mem)
  with assms(1) show ?thesis by simp
qed

lemma f64_nine_tenths: "f64 (9 / 10) = 8106479329266893 / 2 ^ 53"
  by (subst f64_eval [of "- 1"]) (simp_all add: pow2_def round_half_even_def Let_def)

lemma f64_scale_3: "f64 (8106479329266893 / 2 ^ 53 / 3) = 5404319552844595 / 2 ^ 54"
  by (subst f64_eval [of "- 2"]) (simp_all add: pow2_def round_half_even_def Let_def)

lemma f64_peak_3: "f64 (3 * (5404319552844595 / 2 ^ 54)) = 8106479329266892 / 2 ^ 53"
  by (subst f64_eval [of "- 1"]) (simp_all add: pow2_def round_half_even_def Let_def)

lemma f64_scale_again: "f64 (8106479329266893 / 2 ^ 53 / (8106479329266892 / 2 ^ 53)) = 4503599627370497 / 2 ^ 52"
  by (subst f64_eval [of 0]) (simp_all add: pow2_def round_half_even_def Let_def)

lemma f64_peak_again: "f64 (8106479329266892 / 2 ^ 53 * (4503599627370497 / 2 ^ 52)) = 8106479329266894 / 2 ^ 53"
  by (subst f64_eval [of "- 1"]) (simp_all add: pow2_def round_half_even_def Let_def)

lemma normalize_buffer_Fin:
  assumes "buf \<noteq> []" and "0 < rnd (9 / 10)"
  shows "normalize_buffer rnd (map Fin buf) =
           Inr (if peak buf = 0 then map (\<lambda>x. NaN) buf
                else map (\<lambda>x. Fin (rnd (x * rnd (rnd (9 / 10) / peak buf)))) buf)"
  unfolding normalize_buffer_def np_max_abs_Fin [OF assms(1)]
  using peak_nonneg [of buf] peak_zero_all_zero [of buf] assms(2) by (auto simp: comp_def)

lemma normalize_buffer_single:
  assumes "0 < a"
  shows "normalize_buffer rnd [Fin a] = Inr [Fin (rnd (a * rnd (rnd (9 / 10) / a)))]"
  using assms by (simp add: normalize_buffer_def)

text \<open>
  Claim C1, as amended. The all-zero buffer is not special-cased: the factor
  \<open>0.9 / 0\<close> is computed, it is infinite, and the product with a zero sample is NaN, so
  the whole buffer comes back as NaN. A buffer of finite samples with a non-zero peak
  has every sample multiplied by the factor \<open>0.9 / peak\<close> (each operation rounded by
  the arithmetic in use). The peak is zero exactly for the all-zero buffer.
\<close>

theorem normalize_buffer_scales_or_nan:
  assumes "buf \<noteq> []" and "0 < rnd (9 / 10)"
  shows "normalize_buffer rnd (map Fin buf) =
           Inr (if peak buf = 0 then map (\<lambda>x. NaN) buf
                else map (\<lambda>x. Fin (rnd (x * rnd (rnd (9 / 10) / peak buf)))) buf)
         \<and> (peak buf = 0) = list_all (\<lambda>x. x = 0) buf"
proof
  show "normalize_buffer rnd (map Fin buf) =
           Inr (if peak buf = 0 then map (\<lambda>x. NaN) buf
                else map (\<lambda>x. Fin (rnd (x * rnd (rnd (9 / 10) / peak buf)))) buf)"
    using assms by (rule normalize_buffer_Fin)
  show "(peak buf = 0) = list_all (\<lambda>x. x = 0) buf"
  proof
    assume "peak buf = 0"
    then show "list_all (\<lambda>x. x = 0) buf"
      using peak_zero_all_zero [of buf] by (simp add: list_all_iff)
  next
    assume "list_all (\<lambda>x. x = 0) buf"
    then have "map abs buf = replicate (length buf) 0"
      by (induction buf) simp_all
    moreover have "fold max (replicate n 0) (0::real) = 0" for n
      by (induction n) simp_all
    ultimately show "peak buf = 0" by (simp add: peak_def)
  qed
qed

theorem normalize_buffer_scales_or_nan_witness:
  "normalize_buffer exact (map Fin [1, - 2, 1 / 2])
     = Inr [Fin (9 / 20), Fin (- 9 / 10), Fin (9 / 40)]"
proof -
  have a: "[1, - 2, 1 / 2 :: real] \<noteq> []" by simp
  have b: "0 < exact (9 / 10)" by (simp add: exact_def)
  from normalize_buffer_scales_or_nan [where rnd = exact, OF a b] show ?thesis
    by (simp add: peak_def exact_def)
qed

text \<open>The silent buffer, normalized in float64 arithmetic: three NaN.\<close>

theorem silent_buffer_not_preserved:
  "normalize_buffer f64 [Fin 0, Fin 0, Fin 0] = Inr [NaN, NaN, NaN]
   \<and> normalize_buffer f64 [Fin 0, Fin 0, Fin 0] \<noteq> Inr [Fin 0, Fin 0, Fin 0]"
  by (simp add: normalize_buffer_def f64_nine_tenths)

section \<open>Normalizing twice\<close>

lemma fold_max_in: "fold max xs (a::real) \<in> insert a (set xs)"
proof (induction xs arbitrary: a)
  case Nil show ?case by simp
next
  case (Cons x xs)
  have m: "max x a = x \<or> max x a = a" by (simp add: max_def)
  have "fold max xs (max x a) \<in> insert (max x a) (set xs)" by (rule Cons.IH)
  with m show ?case by auto
qed

lemma peak_attained:
  assumes "peak xs \<noteq> 0"
  shows "\<exists>x \<in> set xs. \<bar>x\<bar> = peak xs"
  using fold_max_in [of "map abs xs" 0] assms by (auto simp: peak_def)

lemma peak_ge: "x \<in> set xs \<Longrightarrow> \<bar>x\<bar> \<le> peak xs"
proof -
  assume "x \<in> set xs"
  then have "\<bar>x\<bar> \<in> set (map abs xs)" by simp
  then show ?thesis unfolding peak_def by (rule fold_max_mem)
qed

lemma fold_max_le: "a \<le> M \<Longrightarrow> \<forall>x \<in> set xs. x \<le> M \<Longrightarrow> fold max xs (a::real) \<le> M"
  by (induction xs arbitrary: a) simp_all

lemma peak_le:
  assumes "\<And>x. x \<in> set xs \<Longrightarrow> \<bar>x\<bar> \<le> M" and "0 \<le> M"
  shows "peak xs \<le> M"
  unfolding peak_def using assms by (intro fold_max_le) auto

text \<open>
  One pass with the target \<open>c\<close>: the factor \<open>c / peak\<close> and each product are rounded
  once, so the new peak is within two roundings of \<open>c\<close>.
\<close>

lemma scale_pass_peak:
  assumes rr: "rel_rounding u rnd" and c: "0 < c" and m: "peak buf \<noteq> 0"
  shows "c * (1 - u)\<^sup>2 \<le> peak (map (\<lambda>x. rnd (x * rnd (c / peak buf))) buf)"
    and "peak (map (\<lambda>x. rnd (x * rnd (c / peak buf))) buf) \<le> c * (1 + u)\<^sup>2"
proof -
  define m where "m = peak buf"
  define r where "r = c / m"
  define s where "s = rnd r"
  have m0: "0 < m" using peak_nonneg [of buf] m by (simp add: m_def)
  have r0: "0 < r" using c m0 by (simp add: r_def)
  have mr: "m * r = c" using m0 by (simp add: r_def)
  have u0: "0 \<le> u" and u1: "u \<le> 1 / 16" using rr by (simp_all add: rel_rounding_def)
  have a0: "0 \<le> 1 - u" and b0: "0 \<le> 1 + u" using u0 u1 by simp_all
  have s_lo: "r * (1 - u) \<le> s" and s_hi: "s \<le> r * (1 + u)"
    unfolding s_def using rel_rounding_bounds [OF rr, of r] r0 by simp_all
  have s0: "0 \<le> s" unfolding s_def using rel_rounding_nonneg [OF rr, of r] r0 by simp
  have ms_hi: "m * s \<le> c * (1 + u)"
  proof -
    have "m * s \<le> m * (r * (1 + u))" using s_hi m0 by (intro mult_left_mono) simp_all
    also have "\<dots> = c * (1 + u)" using mr by (simp add: mult.assoc [symmetric])
    finally show ?thesis .
  qed
  have ms_lo: "c * (1 - u) \<le> m * s"
  proof -
    have "c * (1 - u) = m * (r * (1 - u))" using mr by (simp add: mult.assoc [symmetric])
    also have "\<dots> \<le> m * s" using s_lo m0 by (intro mult_left_mono) simp_all
    finally show ?thesis .
  qed
  have up: "\<bar>rnd (x * s)\<bar> \<le> c * (1 + u)\<^sup>2" if x: "x \<in> set buf" for x
  proof -
    have xm: "\<bar>x\<bar> \<le> m" unfolding m_def using x by (rule peak_ge)
    have "\<bar>x * s\<bar> = \<bar>x\<bar> * s" using s0 by (simp add: abs_mult)
    also have "\<dots> \<le> m * s" using xm s0 by (rule mult_right_mono)
    also have "\<dots> \<le> c * (1 + u)" by (rule ms_hi)
    finally have xs: "\<bar>x * s\<bar> \<le> c * (1 + u)" .
    have "\<bar>rnd (x * s)\<bar> \<le> \<bar>x * s\<bar> * (1 + u)" by (rule rel_rounding_abs(1) [OF rr])
    also have "\<dots> \<le> c * (1 + u) * (1 + u)" using xs b0 by (rule mult_right_mono)
    finally show ?thesis by (simp add: power2_eq_square mult.assoc)
  qed
  have c2: "0 \<le> c * (1 + u)\<^sup>2" using c by simp
  have "peak (map (\<lambda>x. rnd (x * s)) buf) \<le> c * (1 + u)\<^sup>2"
    using up c2 by (intro peak_le) auto
  then show "peak (map (\<lambda>x. rnd (x * rnd (c / peak buf))) buf) \<le> c * (1 + u)\<^sup>2"
    by (simp add: s_def r_def m_def)
  from peak_attained [OF m] obtain x where x: "x \<in> set buf" and xm: "\<bar>x\<bar> = m"
    by (auto simp: m_def)
  have "c * (1 - u)\<^sup>2 = c * (1 - u) * (1 - u)" by (simp add: power2_eq_square mult.assoc)
  also have "\<dots> \<le> m * s * (1 - u)" using ms_lo a0 by (rule mult_right_mono)
  also have "\<dots> = \<bar>x * s\<bar> * (1 - u)" using xm s0 by (simp add: abs_mult)
  also have "\<dots> \<le> \<bar>rnd (x * s)\<bar>" by (rule rel_rounding_abs(2) [OF rr])
  also have "\<dots> \<le> peak (map (\<lambda>x. rnd (x * s)) buf)"
    using x by (intro peak_ge) simp
  finally show "c * (1 - u)\<^sup>2 \<le> peak (map (\<lambda>x. rnd (x * rnd (c / peak buf))) buf)"
    by (simp add: s_def r_def m_def)
qed

text \<open>
  A second pass over a buffer whose peak is within two roundings of \<open>c\<close>: the factor is
  within three roundings of 1, and each sample moves by at most \<open>4 u / (1 - u)\<^sup>2\<close> of
  itself.
\<close>

lemma second_pass_sample:
  assumes rr: "rel_rounding u rnd" and c: "0 < c"
      and lo: "c * (1 - u)\<^sup>2 \<le> m1" and hi: "m1 \<le> c * (1 + u)\<^sup>2"
  shows "\<bar>rnd (y * rnd (c / m1)) - y\<bar> \<le> 4 * u / (1 - u)\<^sup>2 * \<bar>y\<bar>"
proof -
  define a where "a = 1 - u"
  define b where "b = 1 + u"
  define q where "q = c / m1"
  define s where "s = rnd q"
  define K where "K = u * s + \<bar>s - 1\<bar>"
  have u0: "0 \<le> u" and u1: "u \<le> 1 / 16" using rr by (simp_all add: rel_rounding_def)
  have a0: "0 < a" and a1: "a \<le> 1" and b1: "1 \<le> b" and ab: "a \<le> b"
    using u0 u1 by (simp_all add: a_def b_def)
  have a2: "0 < a\<^sup>2" using a0 by simp
  have lo': "c * a\<^sup>2 \<le> m1" and hi': "m1 \<le> c * b\<^sup>2" using lo hi by (simp_all add: a_def b_def)
  have m0: "0 < m1" using lo' c a2 by (smt (verit) mult_pos_pos)
  have q0: "0 < q" using c m0 by (simp add: q_def)
  have qa: "q * a\<^sup>2 \<le> 1" using lo' m0 by (simp add: q_def field_simps)
  have qb: "1 \<le> q * b\<^sup>2" using hi' m0 by (simp add: q_def field_simps)
  have s_lo: "q * a \<le> s" and s_hi: "s \<le> q * b"
    unfolding s_def a_def b_def using rel_rounding_bounds [OF rr, of q] q0 by simp_all
  have s0: "0 \<le> s" unfolding s_def using rel_rounding_nonneg [OF rr, of q] q0 by simp
  have A: "s * a\<^sup>2 \<le> b"
  proof -
    have "s * a\<^sup>2 \<le> q * b * a\<^sup>2" using s_hi a2 by (intro mult_right_mono) simp_all
    also have "\<dots> = b * (q * a\<^sup>2)" by (simp add: mult_ac)
    also have "\<dots> \<le> b * 1" using qa b1 by (intro mult_left_mono) simp_all
    finally show ?thesis by simp
  qed
  have B: "a \<le> s * b\<^sup>2"
  proof -
    have "a * 1 \<le> a * (q * b\<^sup>2)" using qb a0 by (intro mult_left_mono) simp_all
    also have "\<dots> = q * a * b\<^sup>2" by (simp add: mult_ac)
    also have "\<dots> \<le> s * b\<^sup>2" using s_lo by (intro mult_right_mono) simp_all
    finally show ?thesis by simp
  qed
  have four: "b * b - a * a = 4 * u" by (simp add: a_def b_def algebra_simps)
  have Ka: "K * a\<^sup>2 \<le> 4 * u"
  proof (cases "1 \<le> s")
    case True
    then have K: "K = b * s - 1" by (simp add: K_def b_def algebra_simps)
    have "K * a\<^sup>2 = b * (s * a\<^sup>2) - a * a" by (simp add: K power2_eq_square algebra_simps)
    also have "\<dots> \<le> b * b - a * a"
      using mult_left_mono [OF A, of b] b1 by simp
    finally show ?thesis using four by simp
  next
    case False
    then have K: "K = 1 - a * s" by (simp add: K_def a_def algebra_simps)
    have "a * s \<le> 1 * 1" using a1 False a0 s0 by (intro mult_mono) simp_all
    then have K0: "0 \<le> K" by (simp add: K)
    have sq: "a\<^sup>2 \<le> b\<^sup>2" using ab a0 by (intro power_mono) simp_all
    have "K * a\<^sup>2 \<le> K * b\<^sup>2" using sq K0 by (rule mult_left_mono)
    also have "\<dots> = b * b - a * (s * b\<^sup>2)" by (simp add: K power2_eq_square algebra_simps)
    also have "\<dots> \<le> b * b - a * a"
      using mult_left_mono [OF B, of a] a0 by simp
    finally show ?thesis using four by simp
  qed
  have Kb: "K \<le> 4 * u / a\<^sup>2" using Ka a2 by (simp add: field_simps)
  have e: "\<bar>rnd (y * s) - y * s\<bar> \<le> u * \<bar>y * s\<bar>" using rr by (simp add: rel_rounding_def)
  have ys: "\<bar>y * s\<bar> = \<bar>y\<bar> * s" using s0 by (simp add: abs_mult)
  have d: "\<bar>y * s - y\<bar> = \<bar>y\<bar> * \<bar>s - 1\<bar>"
  proof -
    have "y * s - y = y * (s - 1)" by (simp add: algebra_simps)
    then show ?thesis by (simp only: abs_mult)
  qed
  have "\<bar>rnd (y * s) - y\<bar> \<le> \<bar>rnd (y * s) - y * s\<bar> + \<bar>y * s - y\<bar>" by linarith
  also have "\<dots> \<le> u * (\<bar>y\<bar> * s) + \<bar>y\<bar> * \<bar>s - 1\<bar>" using e ys d by simp
  also have "\<dots> = K * \<bar>y\<bar>" by (simp add: K_def algebra_simps)
  also have "\<dots> \<le> 4 * u / a\<^sup>2 * \<bar>y\<bar>" using Kb by (intro mult_right_mono) simp_all
  finally show ?thesis by (simp add: s_def q_def a_def)
qed

text \<open>
  Claim C6, as amended. Normalizing is idempotent up to rounding. For a buffer of finite
  samples that is not silent, in an arithmetic whose operations have the relative error
  \<open>u\<close> (binary64: \<open>u = 2\<^sup>-\<^sup>5\<^sup>3\<close>; exact arithmetic: \<open>u = 0\<close>): one pass returns a buffer
  of finite samples whose peak is 0.9 up to the three roundings of the literal, the
  quotient and the product; a second pass returns a buffer of finite samples of the
  same length, with a peak in the same interval, in which each sample differs from the
  sample it replaces by at most \<open>4 u / (1 - u)\<^sup>2\<close> of its size. For \<open>u = 0\<close> the peak
  is exactly 0.9 and the second pass changes nothing.
\<close>

theorem normalize_buffer_nearly_idempotent:
  assumes "rel_rounding u rnd" and "peak buf \<noteq> 0"
  shows "\<exists>b1 b2. normalize_buffer rnd (map Fin buf) = Inr (map Fin b1)
           \<and> normalize_buffer rnd (map Fin b1) = Inr (map Fin b2)
           \<and> length b1 = length buf \<and> length b2 = length buf
           \<and> 9 / 10 * (1 - u) ^ 3 \<le> peak b1 \<and> peak b1 \<le> 9 / 10 * (1 + u) ^ 3
           \<and> 9 / 10 * (1 - u) ^ 3 \<le> peak b2 \<and> peak b2 \<le> 9 / 10 * (1 + u) ^ 3
           \<and> (\<forall>i < length buf. \<bar>b2 ! i - b1 ! i\<bar> \<le> 4 * u / (1 - u)\<^sup>2 * \<bar>b1 ! i\<bar>)"
proof -
  note rr = assms(1)
  define c where "c = rnd (9 / 10)"
  define b1 where "b1 = map (\<lambda>x. rnd (x * rnd (c / peak buf))) buf"
  define b2 where "b2 = map (\<lambda>x. rnd (x * rnd (c / peak b1))) b1"
  have u0: "0 \<le> u" and u1: "u \<le> 1 / 16" using rr by (simp_all add: rel_rounding_def)
  have a0: "0 < 1 - u" and b0: "0 < 1 + u" using u0 u1 by simp_all
  have c0: "0 < c" unfolding c_def using rel_rounding_pos [OF rr, of "9 / 10"] by simp
  have c_lo: "9 / 10 * (1 - u) \<le> c" and c_hi: "c \<le> 9 / 10 * (1 + u)"
    unfolding c_def using rel_rounding_bounds [OF rr, of "9 / 10"] by simp_all
  have lo3: "9 / 10 * (1 - u) ^ 3 \<le> c * (1 - u)\<^sup>2"
  proof -
    have "9 / 10 * (1 - u) ^ 3 = 9 / 10 * (1 - u) * (1 - u)\<^sup>2"
      by (simp add: power3_eq_cube power2_eq_square)
    also have "\<dots> \<le> c * (1 - u)\<^sup>2"
      using c_lo by (intro mult_right_mono) simp_all
    finally show ?thesis .
  qed
  have hi3: "c * (1 + u)\<^sup>2 \<le> 9 / 10 * (1 + u) ^ 3"
  proof -
    have "c * (1 + u)\<^sup>2 \<le> 9 / 10 * (1 + u) * (1 + u)\<^sup>2"
      using c_hi by (intro mult_right_mono) simp_all
    also have "\<dots> = 9 / 10 * (1 + u) ^ 3"
      by (simp add: power3_eq_cube power2_eq_square)
    finally show ?thesis .
  qed
  have ne: "buf \<noteq> []" using assms(2) by (auto simp: peak_def)
  have p1: "c * (1 - u)\<^sup>2 \<le> peak b1" "peak b1 \<le> c * (1 + u)\<^sup>2"
    unfolding b1_def by (rule scale_pass_peak [OF rr c0 assms(2)])+
  have "0 < c * (1 - u)\<^sup>2" using c0 a0 by simp
  then have m1: "peak b1 \<noteq> 0" using p1(1) by simp
  have ne1: "b1 \<noteq> []" using ne by (simp add: b1_def)
  have p2: "c * (1 - u)\<^sup>2 \<le> peak b2" "peak b2 \<le> c * (1 + u)\<^sup>2"
    unfolding b2_def by (rule scale_pass_peak [OF rr c0 m1])+
  have n1: "normalize_buffer rnd (map Fin buf) = Inr (map Fin b1)"
    using normalize_buffer_Fin [OF ne, of rnd] c0 assms(2) by (simp add: c_def b1_def comp_def)
  have n2: "normalize_buffer rnd (map Fin b1) = Inr (map Fin b2)"
    using normalize_buffer_Fin [OF ne1, of rnd] c0 m1 by (simp add: c_def b2_def comp_def)
  have near: "\<bar>b2 ! i - b1 ! i\<bar> \<le> 4 * u / (1 - u)\<^sup>2 * \<bar>b1 ! i\<bar>" if "i < length buf" for i
  proof -
    have "b2 ! i = rnd (b1 ! i * rnd (c / peak b1))" using that by (simp add: b2_def b1_def)
    then show ?thesis using second_pass_sample [OF rr c0 p1, of "b1 ! i"] by simp
  qed
  have l1: "length b1 = length buf" and l2: "length b2 = length buf"
    by (simp_all add: b1_def b2_def)
  have q1: "9 / 10 * (1 - u) ^ 3 \<le> peak b1" using lo3 p1(1) by linarith
  have q2: "peak b1 \<le> 9 / 10 * (1 + u) ^ 3" using hi3 p1(2) by linarith
  have q3: "9 / 10 * (1 - u) ^ 3 \<le> peak b2" using lo3 p2(1) by linarith
  have q4: "peak b2 \<le> 9 / 10 * (1 + u) ^ 3" using hi3 p2(2) by linarith
  from n1 n2 l1 l2 q1 q2 q3 q4 near show ?thesis by blast
qed

text \<open>
  In binary64, the buffer of the single sample 3.0: the first pass returns
  0.8999999999999999 and the second 0.9000000000000001, two units in the last place
  further, within the bound.
\<close>

theorem normalize_buffer_nearly_idempotent_witness:
  "rel_rounding (1 / 2 ^ 53) f64 \<and> peak [3] \<noteq> 0
   \<and> (\<exists>b1 b2. normalize_buffer f64 (map Fin [3]) = Inr (map Fin b1)
        \<and> b1 = [8106479329266892 / 2 ^ 53]
        \<and> normalize_buffer f64 (map Fin b1) = Inr (map Fin b2)
        \<and> b2 = [8106479329266894 / 2 ^ 53]
        \<and> 9 / 10 * (1 - 1 / 2 ^ 53) ^ 3 \<le> peak b1 \<and> peak b1 \<le> 9 / 10 * (1 + 1 / 2 ^ 53) ^ 3
        \<and> \<bar>b2 ! 0 - b1 ! 0\<bar> \<le> 4 * (1 / 2 ^ 53) / (1 - 1 / 2 ^ 53)\<^sup>2 * \<bar>b1 ! 0\<bar>)"
proof -
  have pk: "peak [3] \<noteq> 0" by (simp add: peak_def)
  have inj: "inj Fin" by (simp add: inj_def)
  have p3: "(0::real) < 3" by simp
  have e1: "normalize_buffer f64 [Fin 3] = Inr [Fin (8106479329266892 / 2 ^ 53)]"
    using normalize_buffer_single [OF p3, of f64]
    by (simp only: f64_nine_tenths f64_scale_3 f64_peak_3)
  have p4: "(0::real) < 8106479329266892 / 2 ^ 53" by simp
  have e2: "normalize_buffer f64 [Fin (8106479329266892 / 2 ^ 53)]
              = Inr [Fin (8106479329266894 / 2 ^ 53)]"
    using normalize_buffer_single [OF p4, of f64]
    by (simp only: f64_nine_tenths f64_scale_again f64_peak_again)
  from normalize_buffer_nearly_idempotent [OF f64_rel_rounding pk]
  obtain b1 b2 where
    n1: "normalize_buffer f64 (map Fin [3]) = Inr (map Fin b1)" and
    n2: "normalize_buffer f64 (map Fin b1) = Inr (map Fin b2)" and
    pk1: "9 / 10 * (1 - 1 / 2 ^ 53) ^ 3 \<le> peak b1" "peak b1 \<le> 9 / 10 * (1 + 1 / 2 ^ 53) ^ 3" and
    near: "\<forall>i < length [3 :: real]. \<bar>b2 ! i - b1 ! i\<bar> \<le> 4 * (1 / 2 ^ 53) / (1 - 1 / 2 ^ 53)\<^sup>2 * \<bar>b1 ! i\<bar>"
    by blast
  have "map Fin b1 = map Fin [8106479329266892 / 2 ^ 53]" using n1 e1 by simp
  then have b1: "b1 = [8106479329266892 / 2 ^ 53]" by (simp only: inj_map_eq_map [OF inj])
  have "map Fin b2 = map Fin [8106479329266894 / 2 ^ 53]" using n2 e2 unfolding b1 by simp
  then have b2: "b2 = [8106479329266894 / 2 ^ 53]" by (simp only: inj_map_eq_map [OF inj])
  have nr: "\<bar>b2 ! 0 - b1 ! 0\<bar> \<le> 4 * (1 / 2 ^ 53) / (1 - 1 / 2 ^ 53)\<^sup>2 * \<bar>b1 ! 0\<bar>"
    using near by simp
  show ?thesis
    using f64_rel_rounding pk n1 n2 b1 b2 pk1 nr by blast
qed

text \<open>
  The buffer of the single sample 3.0 in float64 arithmetic. The factor
  \<^verbatim>\<open>0.9 / 3.0\<close> is the float 0.3 and \<^verbatim>\<open>3.0 * 0.3\<close> is 0.8999999999999999, one unit in
  the last place below the float 0.9; a second pass multiplies by 1.0000000000000002 and
  returns 0.9000000000000001.
\<close>

theorem normalize_buffer_f64_not_idempotent:
  "normalize_buffer f64 [Fin 3] = Inr [Fin (8106479329266892 / 2 ^ 53)]
   \<and> f64 (9 / 10) = 8106479329266893 / 2 ^ 53
   \<and> normalize_buffer f64 [Fin (8106479329266892 / 2 ^ 53)]
       = Inr [Fin (8106479329266894 / 2 ^ 53)]"
proof (intro conjI)
  have "(0::real) < 3" by simp
  from normalize_buffer_single [OF this, of f64]
  show "normalize_buffer f64 [Fin 3] = Inr [Fin (8106479329266892 / 2 ^ 53)]"
    by (simp only: f64_nine_tenths f64_scale_3 f64_peak_3)
  show "f64 (9 / 10) = 8106479329266893 / 2 ^ 53" by (rule f64_nine_tenths)
  have "(0::real) < 8106479329266892 / 2 ^ 53" by simp
  from normalize_buffer_single [OF this, of f64]
  show "normalize_buffer f64 [Fin (8106479329266892 / 2 ^ 53)]
          = Inr [Fin (8106479329266894 / 2 ^ 53)]"
    by (simp only: f64_nine_tenths f64_scale_again f64_peak_again)
qed

section \<open>The mixing engine\<close>

lemma SR_pos: "0 < SR" by (simp add: SR_def)

lemma py_int_nonneg: "0 \<le> x \<Longrightarrow> py_int x = \<lfloor>x\<rfloor>"
  by (simp add: py_int_def)


lemma slice_index_le: "slice_index i n \<le> n"
  unfolding slice_index_def by (cases "i < 0") auto

lemma slice_index_nat: "k \<le> n \<Longrightarrow> slice_index (int k) n = k"
  by (simp add: slice_index_def)

lemma iadd_slice_closed:
  assumes "lo \<le> hi" and "hi \<le> length buf" and "length src = hi - lo"
  shows "iadd_slice rnd buf (int lo) (int hi) src =
           Inr (map (\<lambda>j. if lo \<le> j \<and> j < hi then rnd (buf ! j + src ! (j - lo)) else buf ! j)
                  [0..<length buf])"
proof -
  define N where "N = length buf"
  define mid where "mid = map2 (\<lambda>b x. rnd (b + x)) (take (hi - lo) (drop lo buf)) src"
  have lo: "slice_index (int lo) N = lo" using assms(1,2) by (simp add: slice_index_nat N_def)
  have hi: "slice_index (int hi) N = hi" using assms(2) by (simp add: slice_index_nat N_def)
  have lm: "length mid = hi - lo" using assms by (simp add: mid_def)
  have res: "iadd_slice rnd buf (int lo) (int hi) src
               = Inr (take lo buf @ mid @ drop (lo + (hi - lo)) buf)"
    using assms(3) by (simp add: iadd_slice_def Let_def N_def [symmetric] lo hi mid_def)
  have "take lo buf @ mid @ drop (lo + (hi - lo)) buf
          = map (\<lambda>j. if lo \<le> j \<and> j < hi then rnd (buf ! j + src ! (j - lo)) else buf ! j) [0..<N]"
  proof (rule nth_equalityI)
    show "length (take lo buf @ mid @ drop (lo + (hi - lo)) buf)
            = length (map (\<lambda>j. if lo \<le> j \<and> j < hi then rnd (buf ! j + src ! (j - lo))
                                else buf ! j) [0..<N])"
      using assms(1,2) lm by (simp add: N_def)
  next
    fix j
    assume "j < length (take lo buf @ mid @ drop (lo + (hi - lo)) buf)"
    then have jN: "j < N" using assms(1,2) lm by (simp add: N_def)
    have ltake: "length (take lo buf) = lo" using assms(1,2) by simp
    show "(take lo buf @ mid @ drop (lo + (hi - lo)) buf) ! j
            = map (\<lambda>j. if lo \<le> j \<and> j < hi then rnd (buf ! j + src ! (j - lo)) else buf ! j)
                [0..<N] ! j"
    proof (cases "j < lo")
      case True
      then show ?thesis using jN ltake by (simp add: nth_append)
    next
      case ge: False
      show ?thesis
      proof (cases "j < hi")
        case True
        then have k: "j - lo < hi - lo" using ge by simp
        have "mid ! (j - lo) = rnd (buf ! j + src ! (j - lo))"
          using k assms ge by (simp add: mid_def)
        then show ?thesis using ge True jN ltake lm k by (simp add: nth_append)
      next
        case False
        then have k: "\<not> j - lo < hi - lo" using ge by simp
        have "drop (lo + (hi - lo)) buf ! (j - lo - (hi - lo)) = buf ! j"
          using False ge assms(1,2) jN by (simp add: N_def)
        then show ?thesis using ge False jN ltake lm k by (simp add: nth_append)
      qed
    qed
  qed
  then show ?thesis unfolding res N_def by simp
qed

lemma add_event_closed_form:
  assumes start: "0 \<le> py_int (rnd (ev_start e * SR))"
      and gen: "gen_fn s (ev_name e) (ev_dur e) = Inr (w, s')"
  shows "add_event rnd gen_fn vol (buf, s) e =
           Inr (map (\<lambda>j. if nat (py_int (rnd (ev_start e * SR))) \<le> j
                              \<and> j < min (nat (py_int (rnd (ev_start e * SR))) + length w)
                                      (length buf)
                         then rnd (buf ! j + rnd (w ! (j - nat (py_int (rnd (ev_start e * SR)))) * vol))
                         else buf ! j) [0..<length buf], s')"
proof -
  define N where "N = length buf"
  define i0 where "i0 = py_int (rnd (ev_start e * SR))"
  define data where "data = map (\<lambda>x. rnd (x * vol)) w"
  define i1 where "i1 = min (i0 + int (length data)) (int N)"
  define n0 where "n0 = nat i0"
  have i0_eq: "i0 = int n0" using start by (simp add: i0_def n0_def)
  show ?thesis
  proof (cases "i0 < int N")
    case False
    then have "N \<le> n0" using i0_eq by simp
    then have m: "map (\<lambda>j. if n0 \<le> j \<and> j < min (n0 + length w) N
                         then rnd (buf ! j + rnd (w ! (j - n0) * vol)) else buf ! j) [0..<N] = buf"
      by (intro nth_equalityI) (simp_all add: N_def)
    have a: "add_event rnd gen_fn vol (buf, s) e = Inr (buf, s')"
      using False gen by (simp add: add_event_def Let_def i0_def N_def)
    show ?thesis unfolding a m [unfolded n0_def i0_def N_def] ..
  next
    case True
    then have lt: "n0 < N" using i0_eq by simp
    define n1 where "n1 = min (n0 + length w) N"
    have i1_eq: "i1 = int n1" by (simp add: i1_def n1_def i0_eq data_def)
    have n01: "n0 \<le> n1" using lt by (simp add: n1_def)
    have n1N: "n1 \<le> length buf" by (simp add: n1_def N_def)
    have k: "nat (i1 - i0) = n1 - n0" by (simp add: i1_eq i0_eq)
    have kle: "n1 - n0 \<le> length data" by (simp add: n1_def data_def)
    have src: "slice_upto data (i1 - i0) = take (n1 - n0) data"
    proof -
      have "0 \<le> i1 - i0" using n01 by (simp add: i1_eq i0_eq)
      then have "slice_index (i1 - i0) (length data) = min (nat (i1 - i0)) (length data)"
        by (simp add: slice_index_def)
      then show ?thesis using kle by (simp add: slice_upto_def k)
    qed
    have ls: "length (take (n1 - n0) data) = n1 - n0" using kle by simp
    have el: "take (n1 - n0) data ! (j - n0) = rnd (w ! (j - n0) * vol)"
      if "n0 \<le> j" "j < n1" for j
    proof -
      have "j - n0 < n1 - n0" using that by simp
      moreover have "j - n0 < length w" using that by (auto simp: n1_def)
      ultimately show ?thesis by (simp add: data_def)
    qed
    have "add_event rnd gen_fn vol (buf, s) e
            = (case iadd_slice rnd buf (int n0) (int n1) (take (n1 - n0) data) of
                 Inl err \<Rightarrow> Inl err | Inr buf' \<Rightarrow> Inr (buf', s'))"
      using True gen src
      by (simp add: add_event_def Let_def i0_def [symmetric] data_def [symmetric]
            N_def [symmetric] i1_def [symmetric] i0_eq [symmetric] i1_eq [symmetric])
    also have "\<dots> = Inr (map (\<lambda>j. if n0 \<le> j \<and> j < n1
                                    then rnd (buf ! j + take (n1 - n0) data ! (j - n0))
                                    else buf ! j) [0..<length buf], s')"
      by (simp add: iadd_slice_closed [OF n01 n1N ls])
    also have "map (\<lambda>j. if n0 \<le> j \<and> j < n1
                         then rnd (buf ! j + take (n1 - n0) data ! (j - n0))
                         else buf ! j) [0..<length buf]
                 = map (\<lambda>j. if n0 \<le> j \<and> j < n1
                             then rnd (buf ! j + rnd (w ! (j - n0) * vol))
                             else buf ! j) [0..<length buf]"
      by (rule map_cong) (simp_all add: el)
    finally show ?thesis unfolding n1_def n0_def i0_def N_def .
  qed
qed

lemma add_event_in_bounds:
  assumes "0 \<le> py_int (rnd (ev_start e * SR))"
      and "gen_fn s (ev_name e) (ev_dur e) = Inr (w, s')"
  shows "\<exists>buf'. add_event rnd gen_fn vol (buf, s) e = Inr (buf', s')
           \<and> length buf' = length buf
           \<and> (\<forall>j < length buf. j < nat (py_int (rnd (ev_start e * SR)))
                 \<or> nat (py_int (rnd (ev_start e * SR))) + length w \<le> j \<longrightarrow> buf' ! j = buf ! j)
           \<and> (int (length buf) \<le> py_int (rnd (ev_start e * SR)) \<longrightarrow> buf' = buf)"
proof -
  define n0 where "n0 = nat (py_int (rnd (ev_start e * SR)))"
  define buf' where "buf' = map (\<lambda>j. if n0 \<le> j \<and> j < min (n0 + length w) (length buf)
                         then rnd (buf ! j + rnd (w ! (j - n0) * vol))
                         else buf ! j) [0..<length buf]"
  have r: "add_event rnd gen_fn vol (buf, s) e = Inr (buf', s')"
    unfolding buf'_def n0_def using assms by (rule add_event_closed_form)
  have l: "length buf' = length buf" by (simp add: buf'_def)
  have u: "buf' ! j = buf ! j" if "j < length buf" "j < n0 \<or> n0 + length w \<le> j" for j
    using that by (auto simp: buf'_def)
  have d: "buf' = buf" if "int (length buf) \<le> py_int (rnd (ev_start e * SR))"
  proof (rule nth_equalityI)
    show "length buf' = length buf" by (rule l)
  next
    fix j assume "j < length buf'"
    then have j: "j < length buf" by (simp add: l)
    then have "j < n0" using that by (simp add: n0_def)
    then show "buf' ! j = buf ! j" using u j by blast
  qed
  show ?thesis using r l u d unfolding n0_def by blast
qed

lemma add_events_in_bounds:
  assumes "\<forall>e \<in> set es. 0 \<le> py_int (rnd (ev_start e * SR))"
      and "\<forall>e \<in> set es. \<forall>s. \<exists>w s'. gen_fn s (ev_name e) (ev_dur e) = Inr (w, s')"
  shows "\<exists>buf' s'. add_events rnd (buf, s) es gen_fn vol = Inr (buf', s')
           \<and> length buf' = length buf
           \<and> ((\<forall>e \<in> set es. int (length buf) \<le> py_int (rnd (ev_start e * SR))) \<longrightarrow> buf' = buf)"
  using assms
proof (induction es arbitrary: buf s)
  case Nil show ?case by simp
next
  case (Cons e es)
  from Cons.prems(2) obtain w s1 where gen: "gen_fn s (ev_name e) (ev_dur e) = Inr (w, s1)"
    by (meson list.set_intros(1))
  have st: "0 \<le> py_int (rnd (ev_start e * SR))" using Cons.prems(1) by simp
  from add_event_in_bounds [where rnd = rnd and gen_fn = gen_fn and e = e and s = s
      and vol = vol and buf = buf, OF st gen] obtain b1 where
    a: "add_event rnd gen_fn vol (buf, s) e = Inr (b1, s1)" and l: "length b1 = length buf"
    and d: "int (length buf) \<le> py_int (rnd (ev_start e * SR)) \<longrightarrow> b1 = buf"
    by blast
  have p1: "\<forall>e \<in> set es. 0 \<le> py_int (rnd (ev_start e * SR))" using Cons.prems(1) by simp
  have p2: "\<forall>e \<in> set es. \<forall>s. \<exists>w s'. gen_fn s (ev_name e) (ev_dur e) = Inr (w, s')"
    using Cons.prems(2) by simp
  from Cons.IH [OF p1 p2, of b1 s1] obtain b2 s2 where
    r: "add_events rnd (b1, s1) es gen_fn vol = Inr (b2, s2)" and l2: "length b2 = length b1"
    and d2: "(\<forall>e \<in> set es. int (length b1) \<le> py_int (rnd (ev_start e * SR))) \<longrightarrow> b2 = b1"
    by blast
  have "add_events rnd (buf, s) (e # es) gen_fn vol = Inr (b2, s2)" using a r by simp
  moreover have "length b2 = length buf" using l l2 by simp
  moreover have "(\<forall>e' \<in> set (e # es). int (length buf) \<le> py_int (rnd (ev_start e' * SR)))
                   \<longrightarrow> b2 = buf"
    using d d2 l by simp
  ultimately show ?case by blast
qed

lemma drum_sound_unknown:
  assumes "kind \<notin> {''kick'', ''snare'', ''hihat'', ''clap''}" and "0 \<le> py_int (rnd (SR * dur))"
  shows "drum_sound rnd g kind dur = Inr (replicate (nat (py_int (rnd (SR * dur)))) 0, g)"
  using assms by (simp add: drum_sound_def linspace_def Let_def)

lemma tonal_unknown: "note_freqs n = None \<Longrightarrow> tonal_fn rnd decay g n d = Inl KeyError"
  by (simp add: tonal_fn_def getitem_def)

lemma f64_int:
  assumes "\<bar>m\<bar> < 2 ^ 53"
  shows "f64 (real_of_int m) = real_of_int m"
  using f64_dyadic [OF assms, of 0] by simp

lemma f64_numeral:
  assumes "(numeral k :: int) < 2 ^ 53"
  shows "f64 (numeral k) = numeral k"
  using f64_int [of "numeral k"] assms by simp

lemma f64_one: "f64 1 = 1"
  using f64_int [of 1] by simp

text \<open>
  Claim C2, as amended. The percussion synthesizer returns zeros, \<open>int(SR * dur)\<close> of
  them, for a kind it does not know, and mixing such an event into a buffer of floats
  leaves the buffer as it was. The tonal layers have no such fallback: a symbol without an
  entry in the pitch table raises \<^verbatim>\<open>KeyError\<close> in the synthesis closure, and the fault
  ends the mixing of the layer. This holds in every arithmetic whose rounding has a bounded
  relative error, binary64 among them.
\<close>

theorem unknown_symbol_behaviour:
  assumes "rel_rounding u rnd"
      and "kind \<notin> {''kick'', ''snare'', ''hihat'', ''clap''}"
      and "0 \<le> dur" and "0 \<le> start"
      and "note_freqs n = None"
      and "list_all (\<lambda>x. rnd x = x) buf"
  shows "drum_sound rnd g kind dur = Inr (replicate (nat (py_int (rnd (SR * dur)))) 0, g)
       \<and> add_event rnd (drum_fn rnd) vol (buf, g) (kind, dur, start) = Inr (buf, g)
       \<and> tonal_fn rnd decay g n d = Inl KeyError
       \<and> add_events rnd bs ((n, d, t) # es) (tonal_fn rnd decay) vol = Inl KeyError"
proof -
  have "0 \<le> rnd (SR * dur)"
    using assms(1) by (rule rel_rounding_nonneg) (use assms(3) SR_pos in simp)
  then have len: "0 \<le> py_int (rnd (SR * dur))" by (simp add: py_int_nonneg)
  have ds: "drum_sound rnd g kind dur = Inr (replicate (nat (py_int (rnd (SR * dur)))) 0, g)"
    using assms(2) len by (rule drum_sound_unknown)
  define e :: event where "e = (kind, dur, start)"
  define m where "m = nat (py_int (rnd (SR * dur)))"
  define n0 where "n0 = nat (py_int (rnd (ev_start e * SR)))"
  have "0 \<le> rnd (ev_start e * SR)"
    using assms(1) by (rule rel_rounding_nonneg) (use assms(4) SR_pos in \<open>simp add: e_def ev_start_def\<close>)
  then have st: "0 \<le> py_int (rnd (ev_start e * SR))" by (simp add: py_int_nonneg)
  have gen: "drum_fn rnd g (ev_name e) (ev_dur e) = Inr (replicate m 0, g)"
    using ds by (simp add: drum_fn_def e_def ev_name_def ev_dur_def m_def)
  have z: "rnd 0 = 0" using assms(1) by (rule rel_rounding_zero)
  have fixed: "rnd (buf ! j) = buf ! j" if "j < length buf" for j
    using assms(6) that by (simp add: list_all_length)
  have same: "map (\<lambda>j. if n0 \<le> j \<and> j < min (n0 + length (replicate m (0::real))) (length buf)
                         then rnd (buf ! j + rnd (replicate m 0 ! (j - n0) * vol)) else buf ! j)
                [0..<length buf] = buf"
  proof (rule nth_equalityI)
    show "length (map (\<lambda>j. if n0 \<le> j \<and> j < min (n0 + length (replicate m (0::real))) (length buf)
                         then rnd (buf ! j + rnd (replicate m 0 ! (j - n0) * vol)) else buf ! j)
                [0..<length buf]) = length buf"
      by simp
  next
    fix j
    assume "j < length (map (\<lambda>j. if n0 \<le> j \<and> j < min (n0 + length (replicate m (0::real))) (length buf)
                         then rnd (buf ! j + rnd (replicate m 0 ! (j - n0) * vol)) else buf ! j)
                [0..<length buf])"
    then have j: "j < length buf" by simp
    show "map (\<lambda>j. if n0 \<le> j \<and> j < min (n0 + length (replicate m (0::real))) (length buf)
                         then rnd (buf ! j + rnd (replicate m 0 ! (j - n0) * vol)) else buf ! j)
                [0..<length buf] ! j = buf ! j"
    proof (cases "n0 \<le> j \<and> j < n0 + m")
      case True
      then have "j - n0 < m" by linarith
      then have "replicate m (0::real) ! (j - n0) = 0" by (rule nth_replicate)
      then show ?thesis using j z fixed [OF j] by simp
    next
      case False
      then show ?thesis using j by auto
    qed
  qed
  have ae: "add_event rnd (drum_fn rnd) vol (buf, g) (kind, dur, start) = Inr (buf, g)"
    using add_event_closed_form [where rnd = rnd and gen_fn = "drum_fn rnd" and e = e and s = g
        and w = "replicate m 0" and s' = g and vol = vol and buf = buf, OF st gen]
    unfolding n0_def [symmetric] same by (simp add: e_def)
  have tn: "tonal_fn rnd decay g n d = Inl KeyError"
    using assms(5) by (rule tonal_unknown)
  have aes: "add_events rnd bs ((n, d, t) # es) (tonal_fn rnd decay) vol = Inl KeyError"
    by (simp add: add_event_def Let_def tonal_unknown [OF assms(5)] ev_name_def ev_dur_def)
  show ?thesis using ds ae tn aes by blast
qed

theorem unknown_symbol_behaviour_witness:
  "drum_sound f64 (const_noise 0) ''cowbell'' (1 / 16384) = Inr ([0, 0], const_noise 0)
   \<and> add_event f64 (drum_fn f64) 1 ([1, 2], const_noise 0) (''cowbell'', 1 / 16384, 0)
       = Inr ([1, 2], const_noise 0)
   \<and> tonal_fn f64 3 (const_noise 0) ''H4'' (1 / 2) = Inl KeyError
   \<and> add_events f64 ([1, 2], ()) [(''H4'', 1 / 2, 0)] (tonal_fn f64 3) 1 = Inl KeyError"
proof -
  have a: "''cowbell'' \<notin> {''kick'', ''snare'', ''hihat'', ''clap''}" by simp
  have b: "(0::real) \<le> 1 / 16384" by simp
  have c: "(0::real) \<le> 0" by simp
  have d: "note_freqs ''H4'' = None" by (simp add: note_freqs_def)
  have f: "list_all (\<lambda>x. f64 x = x) [1, 2]" by (simp add: f64_table)
  have e: "replicate (nat (py_int (f64 (SR * (1 / 16384))))) (0::real) = [0, 0]"
    by (simp add: SR_def f64_table py_int_def numeral_2_eq_2)
  from unknown_symbol_behaviour [where rnd = f64 and g = "const_noise 0" and vol = 1
      and buf = "[1, 2]" and decay = 3 and d = "1 / 2" and bs = "([1, 2], ())" and t = 0
      and es = "[]", OF f64_rel_rounding a b c d f]
  show ?thesis unfolding e .
qed

text \<open>
  A note name outside the pitch table, given to the mixer with the closure of the
  melody layer: the call ends in \<^verbatim>\<open>KeyError\<close> instead of adding silence.
\<close>

theorem unknown_pitch_aborts_mix:
  "add_events f64 ([0, 0, 0], ()) [(''H4'', 1 / 2, 0)] (tonal_fn f64 3) (f64 (9 / 10))
     = Inl KeyError"
  by (simp add: add_event_def tonal_fn_def getitem_def note_freqs_def ev_name_def Let_def)

text \<open>
  Claim C3, as amended. The start index of an event is \<open>int(start * SR)\<close> of the float
  product, which truncates: when the product is not negative the index is its floor, not
  the nearest integer. With \<open>i1 = min(i0 + len(waveform), N)\<close>, the sample of the buffer
  at each index from \<open>i0\<close> up to \<open>i1\<close> becomes the float sum of itself and the sample of
  the waveform at the offset from \<open>i0\<close> times the volume; every other sample keeps its
  value, and the buffer keeps its length.
\<close>

theorem add_event_accumulates:
  assumes "0 \<le> rnd (ev_start e * SR)"
      and "gen_fn s (ev_name e) (ev_dur e) = Inr (w, s')"
  shows "py_int (rnd (ev_start e * SR)) = \<lfloor>rnd (ev_start e * SR)\<rfloor>
       \<and> add_event rnd gen_fn vol (buf, s) e =
           Inr (map (\<lambda>j. if nat \<lfloor>rnd (ev_start e * SR)\<rfloor> \<le> j
                              \<and> j < min (nat \<lfloor>rnd (ev_start e * SR)\<rfloor> + length w) (length buf)
                         then rnd (buf ! j + rnd (w ! (j - nat \<lfloor>rnd (ev_start e * SR)\<rfloor>) * vol))
                         else buf ! j) [0..<length buf], s')"
proof
  show i: "py_int (rnd (ev_start e * SR)) = \<lfloor>rnd (ev_start e * SR)\<rfloor>"
    using assms(1) by (rule py_int_nonneg)
  have "0 \<le> py_int (rnd (ev_start e * SR))" using assms(1) by (simp add: py_int_nonneg)
  from add_event_closed_form [where rnd = rnd and gen_fn = gen_fn and e = e and s = s
      and vol = vol and buf = buf, OF this assms(2)]
  show "add_event rnd gen_fn vol (buf, s) e =
           Inr (map (\<lambda>j. if nat \<lfloor>rnd (ev_start e * SR)\<rfloor> \<le> j
                              \<and> j < min (nat \<lfloor>rnd (ev_start e * SR)\<rfloor> + length w) (length buf)
                         then rnd (buf ! j + rnd (w ! (j - nat \<lfloor>rnd (ev_start e * SR)\<rfloor>) * vol))
                         else buf ! j) [0..<length buf], s')"
    unfolding i .
qed

theorem add_event_accumulates_witness:
  "add_event f64 (\<lambda>s n d. Inr ([1, 2, 3], s)) 2 ([10, 20, 30, 40], ()) (''C4'', 1, 1 / 16384)
     = Inr ([10, 20, 32, 44], ())"
proof -
  have a: "0 \<le> f64 (ev_start (''C4'', 1 :: real, 1 / 16384 :: real) * SR)"
    by (simp add: ev_start_def SR_def f64_table)
  have b: "(\<lambda>s n d. Inr ([1, 2, 3], s)) () (ev_name (''C4'', 1, 1 / 16384))
             (ev_dur (''C4'', 1, 1 / 16384))
             = (Inr ([1, 2, 3 :: real], ()) :: fault + real list \<times> unit)"
    by simp
  have u: "[0..<4] = [0, 1, 2, 3 :: nat]" by code_simp
  from add_event_accumulates [where rnd = f64 and e = "(''C4'', 1, 1 / 16384)"
      and gen_fn = "\<lambda>s n d. Inr ([1, 2, 3], s)" and s = "()" and w = "[1, 2, 3]" and s' = "()"
      and vol = 2 and buf = "[10, 20, 30, 40]", OF a b]
  show ?thesis by (simp add: ev_start_def SR_def u f64_table)
qed

text \<open>
  Truncation against rounding, in binary64. A hi-hat starting at \<open>1/65536\<close> s lands on
  sample 0 of the buffer, where rounding would give sample 1; the second hi-hat of the
  first beat at 128 bpm starts at \<open>15/128\<close> s, which is sample 5167 and would round to
  5168. The index is taken from the float product: slot 1 of the drums at 112 bpm starts
  at the float \<^verbatim>\<open>60/112\<close>, whose float product with 44100 is 23625 exactly, although the
  exact product is a little below 23625.
\<close>

theorem start_index_is_truncated:
  "map_sum id fst
     (add_event f64 (drum_fn f64) 1 ([0, 0], const_noise (1 / 2)) (''hihat'', 1 / 32768, 1 / 65536))
     = Inr [3602879701896397 / 2 ^ 54, 0]
   \<and> py_int (f64 (1 / 65536 * SR)) = 0 \<and> round (f64 (1 / 65536 * SR)) = (1::int)
   \<and> py_int (f64 (15 / 128 * SR)) = 5167 \<and> round (f64 (15 / 128 * SR)) = (5168::int)
   \<and> py_int (f64 (f64 (60 / 112) * SR)) = 23625 \<and> \<lfloor>f64 (60 / 112) * SR\<rfloor> = 23624"
  by (simp add: add_event_def drum_fn_def drum_sound_def linspace_def py_int_def SR_def
        np_rand_def const_noise_def ev_start_def ev_name_def ev_dur_def iadd_slice_def
        slice_index_def slice_upto_def Let_def round_def np_exp_def f64_table)

text \<open>
  Claim C5, as amended. For events whose start index is not negative and whose waveform
  the closure can synthesize, the mixer returns without a fault a buffer of the length it
  was given, whatever the lengths of the waveforms: the slice is clamped to the end of the
  buffer. When every event of the list has its start index at or past the end (an event
  starting exactly at the total duration among them), the buffer comes back as it was. The
  waveform is synthesized before the index is compared with the length, so a fault of the
  synthesis is raised for an event past the end as for any other; the counterexample
  follows.
\<close>

theorem mixer_stays_in_bounds:
  assumes "\<forall>e \<in> set es. 0 \<le> py_int (rnd (ev_start e * SR))"
      and "\<forall>e \<in> set es. \<forall>s. \<exists>w s'. gen_fn s (ev_name e) (ev_dur e) = Inr (w, s')"
  shows "\<exists>buf' s'. add_events rnd (buf, s) es gen_fn vol = Inr (buf', s')
           \<and> length buf' = length buf
           \<and> ((\<forall>e \<in> set es. int (length buf) \<le> py_int (rnd (ev_start e * SR))) \<longrightarrow> buf' = buf)"
  using assms by (rule add_events_in_bounds)

theorem mixer_stays_in_bounds_witness:
  "add_events f64 ([1, 2, 3], ()) [(''a'', 1, 1 / 16384), (''b'', 1, 1 / 8192)]
     (\<lambda>s n d. Inr ([5, 5, 5, 5], s)) 1 = Inr ([1, 2, 8], ())
   \<and> (\<exists>buf' s'. add_events f64 ([1, 2, 3], ()) [(''a'', 1, 1 / 16384), (''b'', 1, 1 / 8192)]
          (\<lambda>s n d. Inr ([5, 5, 5, 5], s)) 1 = Inr (buf', s') \<and> length buf' = 3)
   \<and> add_events f64 ([1, 2, 3], ()) [(''b'', 1, 1 / 8192)] (\<lambda>s n d. Inr ([5, 5, 5, 5], s)) 1
       = Inr ([1, 2, 3], ())"
proof -
  have a: "\<forall>e \<in> set [(''a'', 1, 1 / 16384), (''b'', 1 :: real, 1 / 8192 :: real)].
             0 \<le> py_int (f64 (ev_start e * SR))"
    by (simp add: ev_start_def SR_def f64_table py_int_def)
  have b: "\<forall>e \<in> set [(''a'', 1, 1 / 16384), (''b'', 1 :: real, 1 / 8192 :: real)].
             \<forall>s :: unit. \<exists>w s'. (\<lambda>s n d. Inr ([5, 5, 5, 5 :: real], s)) s (ev_name e) (ev_dur e)
                                   = (Inr (w, s') :: fault + real list \<times> unit)"
    by simp
  have a1: "\<forall>e \<in> set [(''b'', 1 :: real, 1 / 8192 :: real)]. 0 \<le> py_int (f64 (ev_start e * SR))"
    by (simp add: ev_start_def SR_def f64_table py_int_def)
  have b1: "\<forall>e \<in> set [(''b'', 1 :: real, 1 / 8192 :: real)].
             \<forall>s :: unit. \<exists>w s'. (\<lambda>s n d. Inr ([5, 5, 5, 5 :: real], s)) s (ev_name e) (ev_dur e)
                                   = (Inr (w, s') :: fault + real list \<times> unit)"
    by simp
  have past: "\<forall>e \<in> set [(''b'', 1 :: real, 1 / 8192 :: real)].
                int (length [1, 2, 3 :: real]) \<le> py_int (f64 (ev_start e * SR))"
    by (simp add: ev_start_def SR_def f64_table py_int_def)
  have run: "add_events f64 ([1, 2, 3], ()) [(''a'', 1, 1 / 16384), (''b'', 1, 1 / 8192)]
               (\<lambda>s n d. Inr ([5, 5, 5, 5], s)) 1 = Inr ([1, 2, 8], ())"
    by (simp add: add_event_def py_int_def SR_def ev_start_def ev_name_def ev_dur_def
          iadd_slice_def slice_index_def slice_upto_def Let_def f64_table)
  from mixer_stays_in_bounds [where rnd = f64 and gen_fn = "\<lambda>s n d. Inr ([5, 5, 5, 5], s)"
      and buf = "[1, 2, 3]" and s = "()" and vol = 1, OF a b]
  have first: "\<exists>buf' s'. add_events f64 ([1, 2, 3], ()) [(''a'', 1, 1 / 16384), (''b'', 1, 1 / 8192)]
          (\<lambda>s n d. Inr ([5, 5, 5, 5], s)) 1 = Inr (buf', s') \<and> length buf' = 3"
    by auto
  from mixer_stays_in_bounds [where rnd = f64 and gen_fn = "\<lambda>s n d. Inr ([5, 5, 5, 5], s)"
      and buf = "[1, 2, 3]" and s = "()" and vol = 1, OF a1 b1] past
  have second: "add_events f64 ([1, 2, 3], ()) [(''b'', 1, 1 / 8192)]
                  (\<lambda>s n d. Inr ([5, 5, 5, 5], s)) 1 = Inr ([1, 2, 3], ())"
    by auto
  from run first second show ?thesis by blast
qed

text \<open>
  Two events of the script's layers that start at 20 s, past the end of a buffer of
  three samples. The first has a note name outside the pitch table and the second a
  negative duration: neither is dropped, the mix ends in \<^verbatim>\<open>KeyError\<close> and in
  \<^verbatim>\<open>ValueError\<close>.
\<close>

theorem past_end_event_not_dropped:
  "int (length [0, 0, 0 :: real]) \<le> py_int (f64 (20 * SR))
   \<and> add_events f64 ([0, 0, 0], ()) [(''H4'', 1, 20)] (tonal_fn f64 3) (f64 (9 / 10))
       = Inl KeyError
   \<and> add_events f64 ([0, 0, 0], const_noise 0) [(''kick'', - 1, 20)] (drum_fn f64) 1
       = Inl ValueError"
  by (simp add: add_event_def tonal_fn_def getitem_def note_freqs_def ev_name_def ev_dur_def
        drum_fn_def drum_sound_def linspace_def SR_def py_int_def f64_table Let_def)

section \<open>The drum generator\<close>









section \<open>The loops of the generators\<close>

lemma while_loop_step:
  "c st \<Longrightarrow> body st = Inr st' \<Longrightarrow> while_loop c body st = while_loop c body st'"
  by (subst while_loop.simps) simp

lemma while_loop_exit: "\<not> c st \<Longrightarrow> while_loop c body st = Some (Inr st)"
  by (subst while_loop.simps) simp

lemma while_loop_fault: "c st \<Longrightarrow> body st = Inl e \<Longrightarrow> while_loop c body st = Some (Inl e)"
  by (subst while_loop.simps) simp

lemma while_loop_partial_aux:
  assumes "while_loop c body st = Some r"
  shows "\<forall>I. I st \<longrightarrow> (\<forall>s s'. I s \<longrightarrow> c s \<longrightarrow> body s = Inr s' \<longrightarrow> I s')
        \<longrightarrow> (case r of Inl e \<Rightarrow> \<exists>s. I s \<and> c s \<and> body s = Inl e | Inr s' \<Rightarrow> I s' \<and> \<not> c s')"
proof (rule while_loop.raw_induct
    [where P = "\<lambda>c body st r. \<forall>I. I st \<longrightarrow> (\<forall>s s'. I s \<longrightarrow> c s \<longrightarrow> body s = Inr s' \<longrightarrow> I s')
        \<longrightarrow> (case r of Inl e \<Rightarrow> \<exists>s. I s \<and> c s \<and> body s = Inl e | Inr s' \<Rightarrow> I s' \<and> \<not> c s')"
     and c = c and body = body and st = st and y = r, OF _ assms])
  fix loop :: "('a \<Rightarrow> bool) \<Rightarrow> ('a \<Rightarrow> fault + 'a) \<Rightarrow> 'a \<Rightarrow> (fault + 'a) option"
    and c body st r
  assume IH: "\<And>c' body' st' y. loop c' body' st' = Some y \<Longrightarrow>
                \<forall>I. I st' \<longrightarrow> (\<forall>s s'. I s \<longrightarrow> c' s \<longrightarrow> body' s = Inr s' \<longrightarrow> I s')
                  \<longrightarrow> (case y of Inl e \<Rightarrow> \<exists>s. I s \<and> c' s \<and> body' s = Inl e
                               | Inr s' \<Rightarrow> I s' \<and> \<not> c' s')"
    and eq: "(if c st then case body st of Inl e \<Rightarrow> Some (Inl e) | Inr st' \<Rightarrow> loop c body st'
             else Some (Inr st)) = Some r"
  show "\<forall>I. I st \<longrightarrow> (\<forall>s s'. I s \<longrightarrow> c s \<longrightarrow> body s = Inr s' \<longrightarrow> I s')
        \<longrightarrow> (case r of Inl e \<Rightarrow> \<exists>s. I s \<and> c s \<and> body s = Inl e | Inr s' \<Rightarrow> I s' \<and> \<not> c s')"
  proof (intro allI impI)
    fix I :: "'a \<Rightarrow> bool"
    assume init: "I st" and inv: "\<forall>s s'. I s \<longrightarrow> c s \<longrightarrow> body s = Inr s' \<longrightarrow> I s'"
    show "case r of Inl e \<Rightarrow> \<exists>s. I s \<and> c s \<and> body s = Inl e | Inr s' \<Rightarrow> I s' \<and> \<not> c s'"
    proof (cases "c st")
      case False
      with eq have "r = Inr st" by simp
      with False init show ?thesis by simp
    next
      case True
      show ?thesis
      proof (cases "body st")
        case (Inl e)
        with True eq have "r = Inl e" by simp
        with True Inl init show ?thesis by auto
      next
        case (Inr st')
        with True eq have "loop c body st' = Some r" by simp
        moreover have "I st'" using inv init True Inr by blast
        ultimately show ?thesis using IH inv by blast
      qed
    qed
  qed
qed

lemma while_loop_partial:
  assumes "while_loop c body st = Some r" and "I st"
      and "\<And>s s'. I s \<Longrightarrow> c s \<Longrightarrow> body s = Inr s' \<Longrightarrow> I s'"
  shows "case r of Inl e \<Rightarrow> \<exists>s. I s \<and> c s \<and> body s = Inl e | Inr s' \<Rightarrow> I s' \<and> \<not> c s'"
  using while_loop_partial_aux [OF assms(1)] assms(2,3) by blast

lemma while_loop_diverges:
  assumes "I st" and "\<And>s. I s \<Longrightarrow> c s \<and> (\<exists>s'. body s = Inr s' \<and> I s')"
  shows "while_loop c body st = None"
proof (cases "while_loop c body st")
  case None then show ?thesis .
next
  case (Some r)
  have inv: "I s'" if "I s" "c s" "body s = Inr s'" for s s'
    using assms(2) [OF that(1)] that(3) by auto
  from while_loop_partial [OF Some, of I, OF assms(1) inv]
  have "case r of Inl e \<Rightarrow> \<exists>s. I s \<and> c s \<and> body s = Inl e | Inr s' \<Rightarrow> I s' \<and> \<not> c s'" .
  then have False
  proof (cases r)
    case (Inl e)
    assume "case r of Inl e \<Rightarrow> \<exists>s. I s \<and> c s \<and> body s = Inl e | Inr s' \<Rightarrow> I s' \<and> \<not> c s'"
    with Inl obtain s where s: "I s" "body s = Inl e" by auto
    from assms(2) [OF s(1)] obtain s' where "body s = Inr s'" by blast
    with s(2) show False by simp
  next
    case (Inr s')
    assume "case r of Inl e \<Rightarrow> \<exists>s. I s \<and> c s \<and> body s = Inl e | Inr s' \<Rightarrow> I s' \<and> \<not> c s'"
    with Inr have "I s'" "\<not> c s'" by auto
    with assms(2) [of s'] show False by blast
  qed
  then show ?thesis ..
qed

lemma while_loop_total:
  fixes clock :: "'s \<Rightarrow> real"
  assumes h: "0 < h"
      and inv: "\<And>st st'. I st \<Longrightarrow> clock st < D \<Longrightarrow> body st = Inr st'
                  \<Longrightarrow> I st' \<and> (D \<le> clock st' \<or> clock st + h \<le> clock st')"
      and init: "I st0"
  shows "\<exists>r. while_loop (\<lambda>st. clock st < D) body st0 = Some r"
proof -
  obtain n where n: "D - clock st0 < real n * h"
    using ex_less_of_nat_mult [OF h, of "D - clock st0"] by auto
  from init n show ?thesis
  proof (induction n arbitrary: st0)
    case 0
    then have "\<not> clock st0 < D" by simp
    then show ?case by (simp add: while_loop_exit)
  next
    case (Suc n)
    show ?case
    proof (cases "clock st0 < D")
      case False
      then show ?thesis by (simp add: while_loop_exit)
    next
      case True
      show ?thesis
      proof (cases "body st0")
        case (Inl e)
        then show ?thesis using True by (simp add: while_loop_fault)
      next
        case (Inr st')
        have eq: "while_loop (\<lambda>st. clock st < D) body st0 = while_loop (\<lambda>st. clock st < D) body st'"
          using True Inr by (intro while_loop_step) simp_all
        from inv [OF Suc.prems(1) True Inr]
        have I': "I st'" and adv: "D \<le> clock st' \<or> clock st0 + h \<le> clock st'" by simp_all
        have "D - clock st' < real n * h \<or> D - clock st' \<le> 0"
          using adv Suc.prems(2) by (auto simp: algebra_simps)
        then show ?thesis
        proof
          assume "D - clock st' < real n * h"
          from Suc.IH [OF I' this] show ?thesis unfolding eq .
        next
          assume "D - clock st' \<le> 0"
          then have "\<not> clock st' < D" by simp
          then show ?thesis unfolding eq by (simp add: while_loop_exit)
        qed
      qed
    qed
  qed
qed

section \<open>One iteration of each generator\<close>

lemma chord_notes_cases:
  assumes "chord_notes c = Some ns"
  shows "ns \<in> {[''C4'', ''E4'', ''G4''], [''G4'', ''B4'', ''D5''], [''A4'', ''C5'', ''E5''],
               [''F4'', ''A4'', ''C5''], [''E3'', ''G3'', ''B3'']}"
  using assms by (auto simp: chord_notes_def split: if_splits)

lemma chord_notes_three:
  assumes "chord_notes c = Some ns"
  shows "\<exists>x y z. ns = [x, y, z]"
  using chord_notes_cases [OF assms] by auto

lemma note_freqs_known:
  "(note_freqs n \<noteq> None) =
     (n \<in> {''C3'', ''D3'', ''E3'', ''F3'', ''G3'', ''A3'', ''B3'', ''C4'', ''D4'', ''E4'',
            ''F4'', ''G4'', ''A4'', ''B4'', ''C5'', ''D5'', ''E5''})"
  unfolding note_freqs_def map_of_eq_None_iff by simp

lemma chord_notes_known:
  assumes "chord_notes c = Some ns"
  shows "list_all (\<lambda>n. note_freqs n \<noteq> None) ns"
  using chord_notes_cases [OF assms] unfolding note_freqs_known
  by (elim insertE emptyE) simp_all

lemma cyclic_get_Inr:
  assumes "xs \<noteq> []"
  shows "\<exists>x \<in> set xs. cyclic_get xs k = Inr x"
proof -
  have "0 < int (length xs)" using assms by simp
  then have "k mod int (length xs) < int (length xs)" "0 \<le> k mod int (length xs)"
    by simp_all
  then have "nat (k mod int (length xs)) < length xs" by linarith
  then show ?thesis using assms by (simp add: cyclic_get_def)
qed

lemma cyclic_get_replicate: "0 < k \<Longrightarrow> cyclic_get (replicate k r) i = Inr r"
  using cyclic_get_Inr [of "replicate k r" i] by auto

lemma chord_at_Inr:
  assumes "prog \<noteq> []" and "chord_len \<noteq> 0"
  shows "\<exists>c \<in> set prog. chord_at rnd prog chord_len t = Inr c"
  using cyclic_get_Inr [OF assms(1)] assms(2) by (simp add: chord_at_def)

lemma dom_chord_notes:
  assumes "set prog \<subseteq> dom chord_notes" and "c \<in> set prog"
  shows "\<exists>x y z. getitem chord_notes c = Inr [x, y, z]
           \<and> list_all (\<lambda>n. note_freqs n \<noteq> None) [x, y, z]"
proof -
  from assms obtain ns where ns: "chord_notes c = Some ns" by blast
  from chord_notes_three [OF ns] obtain x y z where "ns = [x, y, z]" by blast
  then show ?thesis using ns chord_notes_known [OF ns] by (simp add: getitem_def)
qed

lemma py_choice_Inr: "xs \<noteq> [] \<Longrightarrow> \<exists>x g'. py_choice xs g = Inr (x, g')"
  by (simp add: py_choice_def)

lemma py_choices_durations:
  "fst (py_choices rnd [1 / 2, 1, 2] [a, b, c] g) \<in> {1 / 2, 1, 2 :: real}"
  unfolding py_choices_def Let_def case_prod_beta by simp

lemma melody_dur_cases:
  "\<exists>k \<in> {1 / 2, 1, 2}. fst (melody_dur rnd D beat t g) = min (rnd (k * beat)) (rnd (D - t))"
proof -
  have "fst (melody_dur rnd D beat t g)
          = min (rnd (fst (py_choices rnd [1 / 2, 1, 2] [rnd (2 / 5), rnd (2 / 5), rnd (1 / 5)] g)
                        * beat)) (rnd (D - t))"
    by (simp add: melody_dur_def case_prod_beta)
  then show ?thesis by (rule bexI [OF _ py_choices_durations])
qed

lemma melody_step_Inr:
  assumes "melody_step rnd D prog beat motif st = Inr st'"
  shows "\<exists>nt k g'. k \<in> {1 / 2, 1, 2}
           \<and> st' = (rnd (fst st + min (rnd (k * beat)) (rnd (D - fst st))),
                     fst (snd st) @ [(nt, min (rnd (k * beat)) (rnd (D - fst st)), fst st)], g')"
proof -
  from assms obtain nt g4 where
    st': "st' = (rnd (fst st + fst (melody_dur rnd D beat (fst st) g4)),
                 fst (snd st) @ [(nt, fst (melody_dur rnd D beat (fst st) g4), fst st)],
                 snd (melody_dur rnd D beat (fst st) g4))"
    unfolding melody_step_def Let_def case_prod_beta
    by (cases "melody_note rnd prog beat motif (fst st) (snd (snd st))") auto
  from melody_dur_cases [of rnd D beat "fst st" g4] obtain k where
    kin: "k \<in> {1 / 2, 1, 2}" and
    keq: "fst (melody_dur rnd D beat (fst st) g4) = min (rnd (k * beat)) (rnd (D - fst st))"
    by (rule bexE)
  have "st' = (rnd (fst st + min (rnd (k * beat)) (rnd (D - fst st))),
               fst (snd st) @ [(nt, min (rnd (k * beat)) (rnd (D - fst st)), fst st)],
               snd (melody_dur rnd D beat (fst st) g4))"
    unfolding st' keq ..
  with kin show ?thesis by (intro exI conjI)
qed

lemma melody_note_ok:
  assumes "prog \<noteq> []" and "set prog \<subseteq> dom chord_notes" and "motif \<noteq> []"
      and "rnd (4 * beat) \<noteq> 0"
  shows "\<exists>nt g'. melody_note rnd prog beat motif t g = Inr (nt, g')"
proof -
  from chord_at_Inr [OF assms(1,4)] obtain c where
    c: "c \<in> set prog" "chord_at rnd prog (rnd (4 * beat)) t = Inr c" by blast
  from dom_chord_notes [OF assms(2) c(1)] obtain x y z where
    ns: "getitem chord_notes c = Inr [x, y, z]" by blast
  define r1 where "r1 = fst (py_random g)"
  define g1 where "g1 = snd (py_random g)"
  define pool where "pool = (if r1 < rnd (7 / 10) then [x, y, z] else scale)"
  have pool_ne: "pool \<noteq> []" by (simp add: pool_def scale_def)
  have pool_eq: "(if r1 < rnd (7 / 10) then getitem chord_notes c else Inr scale) = Inr pool"
    by (simp add: pool_def ns)
  from py_choice_Inr [OF pool_ne] obtain note0 g2 where
    n0: "py_choice pool g1 = Inr (note0, g2)" by blast
  define r2 where "r2 = fst (py_random g2)"
  define g3 where "g3 = snd (py_random g2)"
  from py_choice_Inr [OF assms(3)] obtain m g4 where
    m: "py_choice motif g3 = Inr (m, g4)" by blast
  have "melody_note rnd prog beat motif t g
          = (if r2 < rnd (1 / 5) then Inr (m, g4) else Inr (note0, g3))"
    unfolding melody_note_def Let_def case_prod_beta
    using c(2) pool_eq n0 m
    by (simp add: r1_def [symmetric] g1_def [symmetric] r2_def [symmetric] g3_def [symmetric])
  then show ?thesis by (cases "r2 < rnd (1 / 5)") simp_all
qed

lemma melody_step_ok:
  assumes "prog \<noteq> []" and "set prog \<subseteq> dom chord_notes" and "motif \<noteq> []"
      and "rnd (4 * beat) \<noteq> 0"
  shows "melody_step rnd D prog beat motif st \<noteq> Inl e"
proof -
  from melody_note_ok [where rnd = rnd and beat = beat, OF assms] obtain nt g' where
    "melody_note rnd prog beat motif (fst st) (snd (snd st)) = Inr (nt, g')" by blast
  then show ?thesis by (simp add: melody_step_def Let_def case_prod_beta)
qed

lemma sort_notes_Inr:
  assumes "list_all (\<lambda>n. note_freqs n \<noteq> None) ns"
  shows "\<exists>ns'. sort_notes rnd r ns = Inr ns' \<and> length ns' = length ns \<and> set ns' = set ns"
  using assms by (simp add: sort_notes_def)

lemma shuffle_swap_length: "length (fst (shuffle_swap i s)) = length (fst s)"
  by (simp add: shuffle_swap_def Let_def)

lemma fold_shuffle_swap_length: "length (fst (fold shuffle_swap is s)) = length (fst s)"
  by (induction "is" arbitrary: s) (simp_all add: shuffle_swap_length)

lemma py_shuffle_length: "length (fst (py_shuffle xs g)) = length xs"
  by (simp add: py_shuffle_def fold_shuffle_swap_length)

lemma arpeggio_note_ok:
  assumes "prog \<noteq> []" and "set prog \<subseteq> dom chord_notes" and "rnd (4 * beat) \<noteq> 0"
  shows "\<exists>nt g'. arpeggio_note rnd prog beat style t idx g = Inr (nt, g')"
proof -
  from chord_at_Inr [OF assms(1,3)] obtain c where
    c: "c \<in> set prog" "chord_at rnd prog (rnd (4 * beat)) t = Inr c" by blast
  from dom_chord_notes [OF assms(2) c(1)] obtain x y z where
    ns: "getitem chord_notes c = Inr [x, y, z]"
    and known: "list_all (\<lambda>n. note_freqs n \<noteq> None) [x, y, z]" by blast
  obtain notes1 where
    n1: "(if style = ''asc'' then sort_notes rnd False [x, y, z] else Inr [x, y, z]) = Inr notes1"
    and l1: "length notes1 = 3" and s1: "set notes1 = set [x, y, z]"
    using sort_notes_Inr [OF known, of rnd False] by (cases "style = ''asc''") auto
  have known1: "list_all (\<lambda>n. note_freqs n \<noteq> None) notes1"
    using known s1 by (simp add: list_all_iff)
  obtain notes2 where
    n2: "(if style = ''desc'' then sort_notes rnd True notes1 else Inr notes1) = Inr notes2"
    and l2: "length notes2 = 3"
    using sort_notes_Inr [OF known1, of rnd True] l1 by (cases "style = ''desc''") auto
  define sh where "sh = (if style = ''rand'' then py_shuffle notes2 g else (notes2, g))"
  have l3: "fst sh \<noteq> []"
    using l2 py_shuffle_length [of notes2 g] by (auto simp: sh_def)
  from cyclic_get_Inr [OF l3] obtain nt where nt: "cyclic_get (fst sh) (int idx) = Inr nt"
    by blast
  have "arpeggio_note rnd prog beat style t idx g = Inr (nt, snd sh)"
    unfolding arpeggio_note_def using c(2) ns n1 n2 nt
    by (simp add: case_prod_beta sh_def [symmetric])
  then show ?thesis by blast
qed

lemma arpeggio_step_Inr:
  assumes "arpeggio_step rnd D prog beat style st = Inr st'"
  shows "\<exists>nt g'. st' = (rnd (fst st + min (rnd (beat / 2)) (rnd (D - fst st))), fst (snd st) + 1,
                         fst (snd (snd st))
                           @ [(nt, min (rnd (beat / 2)) (rnd (D - fst st)), fst st)], g')"
  using assms unfolding arpeggio_step_def Let_def case_prod_beta
  by (cases "arpeggio_note rnd prog beat style (fst st) (fst (snd st)) (snd (snd (snd st)))") auto

lemma arpeggio_step_ok:
  assumes "prog \<noteq> []" and "set prog \<subseteq> dom chord_notes" and "rnd (4 * beat) \<noteq> 0"
  shows "\<exists>nt g'. arpeggio_step rnd D prog beat style (t, idx, out, g) =
            Inr (rnd (t + min (rnd (beat / 2)) (rnd (D - t))), idx + 1,
                 out @ [(nt, min (rnd (beat / 2)) (rnd (D - t)), t)], g')"
proof -
  from arpeggio_note_ok [where rnd = rnd and beat = beat, OF assms] obtain nt g' where
    "arpeggio_note rnd prog beat style t idx g = Inr (nt, g')" by blast
  then have "arpeggio_step rnd D prog beat style (t, idx, out, g) =
            Inr (rnd (t + min (rnd (beat / 2)) (rnd (D - t))), idx + 1,
                 out @ [(nt, min (rnd (beat / 2)) (rnd (D - t)), t)], g')"
    by (simp add: arpeggio_step_def Let_def)
  then show ?thesis by blast
qed

lemma arpeggio_step_no_fault:
  assumes "prog \<noteq> []" and "set prog \<subseteq> dom chord_notes" and "rnd (4 * beat) \<noteq> 0"
  shows "arpeggio_step rnd D prog beat style st \<noteq> Inl e"
proof -
  obtain t idx out g where "st = (t, idx, out, g)" by (cases st)
  then show ?thesis
    using arpeggio_step_ok [where rnd = rnd and beat = beat and D = D and style = style
        and t = t and idx = idx and out = out and g = g, OF assms] by auto
qed

lemma bass_step_Inr:
  assumes "bass_step rnd D prog beat st = Inr st'"
  shows "\<exists>c. st' = (rnd (fst st + min (rnd (4 * beat)) (rnd (D - fst st))), fst (snd st) + 1,
                     snd (snd st) @ [(c, min (rnd (4 * beat)) (rnd (D - fst st)), fst st)])"
  using assms unfolding bass_step_def Let_def
  by (cases "cyclic_get prog (int (fst (snd st)))") auto

lemma bass_step_ok:
  assumes "prog \<noteq> []"
  shows "bass_step rnd D prog beat st \<noteq> Inl e"
  using cyclic_get_Inr [OF assms, of "int (fst (snd st))"]
  by (auto simp: bass_step_def Let_def)

lemma pads_step_Inr:
  assumes "pads_step rnd D prog beat st = Inr st'"
  shows "\<exists>x y z. st' = (rnd (fst st + rnd (4 * beat)), fst (snd st) + 1,
                        snd (snd st)
                          @ [(x, min (rnd (4 * beat)) (rnd (D - fst st)), fst st),
                             (y, min (rnd (4 * beat)) (rnd (D - fst st)), fst st),
                             (z, min (rnd (4 * beat)) (rnd (D - fst st)), fst st)])"
proof -
  from assms obtain c where c: "cyclic_get prog (int (fst (snd st))) = Inr c"
    unfolding pads_step_def Let_def
    by (cases "cyclic_get prog (int (fst (snd st)))") auto
  from assms c obtain ns where ns: "getitem chord_notes c = Inr ns"
    unfolding pads_step_def Let_def
    by (cases "getitem chord_notes c") auto
  then have "chord_notes c = Some ns" by (simp add: getitem_def split: option.splits)
  from chord_notes_three [OF this] obtain x y z where "ns = [x, y, z]" by blast
  then show ?thesis using assms c ns by (auto simp: pads_step_def Let_def)
qed

lemma pads_step_ok:
  assumes "prog \<noteq> []" and "set prog \<subseteq> dom chord_notes"
  shows "pads_step rnd D prog beat st \<noteq> Inl e"
proof -
  from cyclic_get_Inr [OF assms(1)] obtain c where
    c: "c \<in> set prog" "cyclic_get prog (int (fst (snd st))) = Inr c" by blast
  from dom_chord_notes [OF assms(2) c(1)] obtain x y z where
    ns: "getitem chord_notes c = Inr [x, y, z]" by blast
  show ?thesis using c(2) ns by (simp add: pads_step_def Let_def)
qed

text \<open>
  Claim C9. With a total duration of 1 s, 120 bpm and a progression that repeats one
  chord of the chord table, the bassline is the single event (root, 1 s, 0 s), its four
  beats of 2 s cut down to the second there is; and the arpeggio, whatever the random
  draws, is four events of 0.25 s starting at 0, 0.25, 0.5 and 0.75 s. Every time of this
  run is a multiple of 1/4, which binary64 holds without error: the statement is for any
  arithmetic that is exact on such numbers.
\<close>

theorem short_piece_scenario:
  assumes de: "dyadic_exact rnd" and k: "0 < k" and r: "r \<in> dom chord_notes"
  shows "make_bass rnd 1 (replicate k r) 120 = Some (Inr [(r, 1, 0)])
       \<and> (\<exists>es g'. make_arpeggio rnd 1 (replicate k r) 120 g = Some (Inr (es, g'))
             \<and> map (\<lambda>e. (ev_dur e, ev_start e)) es
                 = [(1 / 4, 0), (1 / 4, 1 / 4), (1 / 4, 1 / 2), (1 / 4, 3 / 4)])"
proof
  have d: "rnd (real_of_int m / 2 ^ n) = real_of_int m / 2 ^ n" if "\<bar>m\<bar> < 2 ^ 53" for m n
    using de that by (simp add: dyadic_exact_def)
  have r1: "rnd 1 = 1" using d [of 1 0] by simp
  have r2: "rnd 2 = 2" using d [of 2 0] by simp
  have r12: "rnd (1 / 2) = 1 / 2" using d [of 1 1] by simp
  have r14: "rnd (1 / 4) = 1 / 4" using d [of 1 2] by simp
  have r34: "rnd (3 / 4) = 3 / 4" using d [of 3 2] by simp
  note rs = r1 r2 r12 r14 r34
  let ?prog = "replicate k r"
  {
    have s: "bass_step rnd 1 ?prog (1 / 2) (0, 0, []) = Inr (1, 1, [(r, 1, 0)])"
      by (simp add: bass_step_def cyclic_get_replicate [OF k] rs)
    have "while_loop (\<lambda>st. fst st < 1) (bass_step rnd 1 ?prog (1 / 2)) (0, 0, [])
            = while_loop (\<lambda>st. fst st < 1) (bass_step rnd 1 ?prog (1 / 2)) (1, 1, [(r, 1, 0)])"
      by (rule while_loop_step) (use s in simp_all)
    also have "\<dots> = Some (Inr (1, 1, [(r, 1, 0)]))"
      by (rule while_loop_exit) simp
    finally show "make_bass rnd 1 ?prog 120 = Some (Inr [(r, 1, 0)])"
      by (simp add: make_bass_def r12)
  }
  have p1: "?prog \<noteq> []" using k by simp
  have p2: "set ?prog \<subseteq> dom chord_notes" using r by auto
  have p3: "rnd (4 * (1 / 2)) \<noteq> 0" by (simp add: r2)
  obtain style g0 where st: "py_choice [''asc'', ''desc'', ''rand''] g = Inr (style, g0)"
    using py_choice_Inr [of "[''asc'', ''desc'', ''rand'']" g] by auto
  let ?step = "arpeggio_step rnd 1 ?prog (1 / 2) style"
  let ?loop = "while_loop (\<lambda>st. fst st < 1) ?step"
  note ok = arpeggio_step_ok [where rnd = rnd and beat = "1 / 2" and D = 1 and style = style,
      OF p1 p2 p3]
  from ok [of 0 0 "[]" g0] obtain n1 g1 where
    s1: "?step (0, 0, [], g0) = Inr (1 / 4, 1, [(n1, 1 / 4, 0)], g1)"
    by (auto simp: rs)
  from ok [of "1 / 4" 1 "[(n1, 1 / 4, 0)]" g1] obtain n2 g2 where
    s2: "?step (1 / 4, 1, [(n1, 1 / 4, 0)], g1)
           = Inr (1 / 2, 2, [(n1, 1 / 4, 0), (n2, 1 / 4, 1 / 4)], g2)"
    by (auto simp: rs)
  from ok [of "1 / 2" 2 "[(n1, 1 / 4, 0), (n2, 1 / 4, 1 / 4)]" g2] obtain n3 g3 where
    s3: "?step (1 / 2, 2, [(n1, 1 / 4, 0), (n2, 1 / 4, 1 / 4)], g2)
           = Inr (3 / 4, 3, [(n1, 1 / 4, 0), (n2, 1 / 4, 1 / 4), (n3, 1 / 4, 1 / 2)], g3)"
    by (auto simp: rs)
  from ok [of "3 / 4" 3 "[(n1, 1 / 4, 0), (n2, 1 / 4, 1 / 4), (n3, 1 / 4, 1 / 2)]" g3]
  obtain n4 g4 where
    s4: "?step (3 / 4, 3, [(n1, 1 / 4, 0), (n2, 1 / 4, 1 / 4), (n3, 1 / 4, 1 / 2)], g3)
           = Inr (1, 4, [(n1, 1 / 4, 0), (n2, 1 / 4, 1 / 4), (n3, 1 / 4, 1 / 2), (n4, 1 / 4, 3 / 4)], g4)"
    by (auto simp: rs)
  let ?es = "[(n1, 1 / 4, 0), (n2, 1 / 4, 1 / 4), (n3, 1 / 4, 1 / 2), (n4, 1 / 4, 3 / 4)]"
  have "?loop (0, 0, [], g0) = ?loop (1 / 4, 1, [(n1, 1 / 4, 0)], g1)"
    by (rule while_loop_step) (use s1 in simp_all)
  also have "\<dots> = ?loop (1 / 2, 2, [(n1, 1 / 4, 0), (n2, 1 / 4, 1 / 4)], g2)"
    by (rule while_loop_step) (use s2 in simp_all)
  also have "\<dots> = ?loop (3 / 4, 3, [(n1, 1 / 4, 0), (n2, 1 / 4, 1 / 4), (n3, 1 / 4, 1 / 2)], g3)"
    by (rule while_loop_step) (use s3 in simp_all)
  also have "\<dots> = ?loop (1, 4, ?es, g4)"
    by (rule while_loop_step) (use s4 in simp_all)
  also have "\<dots> = Some (Inr (1, 4, ?es, g4))"
    by (rule while_loop_exit) simp
  finally have "make_arpeggio rnd 1 ?prog 120 g = Some (Inr (?es, g4))"
    using st by (simp add: make_arpeggio_def r12)
  moreover have "map (\<lambda>e. (ev_dur e, ev_start e)) ?es
                   = [(1 / 4, 0), (1 / 4, 1 / 4), (1 / 4, 1 / 2), (1 / 4, 3 / 4)]"
    by (simp add: ev_dur_def ev_start_def)
  ultimately show "\<exists>es g'. make_arpeggio rnd 1 ?prog 120 g = Some (Inr (es, g'))
             \<and> map (\<lambda>e. (ev_dur e, ev_start e)) es
                 = [(1 / 4, 0), (1 / 4, 1 / 4), (1 / 4, 1 / 2), (1 / 4, 3 / 4)]"
    by (intro exI [of _ ?es] exI [of _ g4] conjI)
qed

theorem short_piece_scenario_witness:
  "make_bass f64 1 [''C3'', ''C3'', ''C3'', ''C3''] 120 = Some (Inr [(''C3'', 1, 0)])
   \<and> (\<exists>es g'. make_arpeggio f64 1 [''C3'', ''C3'', ''C3'', ''C3''] 120 (\<lambda>k. 0)
                  = Some (Inr (es, g'))
         \<and> map (\<lambda>e. (ev_dur e, ev_start e)) es
             = [(1 / 4, 0), (1 / 4, 1 / 4), (1 / 4, 1 / 2), (1 / 4, 3 / 4)])"
proof -
  have a: "(0::nat) < 4" by simp
  have b: "''C3'' \<in> dom chord_notes" by (simp add: chord_notes_def)
  have c: "replicate 4 ''C3'' = [''C3'', ''C3'', ''C3'', ''C3'']" by code_simp
  from short_piece_scenario [OF f64_dyadic_exact a b, of "\<lambda>k. 0"] show ?thesis unfolding c .
qed

section \<open>The clock of the generators\<close>

lemma clock_from_snoc: "clock_from rnd t (es @ [e]) = rnd (clock_from rnd t es + ev_dur e)"
  by (simp add: clock_from_def)

lemma clock_from_Cons: "clock_from rnd t (e # es) = clock_from rnd (rnd (t + ev_dur e)) es"
  by (simp add: clock_from_def)

lemma chained_snoc:
  "chained rnd D t (es @ [e]) =
     (chained rnd D t es \<and> ev_start e = clock_from rnd t es \<and> clock_from rnd t es < D
      \<and> 0 < ev_dur e \<and> ev_dur e \<le> rnd (D - clock_from rnd t es))"
proof (induction es arbitrary: t)
  case Nil
  have "clock_from rnd t [] = t" by (simp add: clock_from_def)
  then show ?case by simp
next
  case (Cons a es)
  show ?case
    unfolding append_Cons chained.simps Cons.IH [of "rnd (t + ev_dur a)"] clock_from_Cons
    by blast
qed

lemma pad_clock_snoc: "pad_clock rnd c (es @ [e]) = rnd (pad_clock rnd c es + c)"
  by (simp add: pad_clock_def)

lemma pad_chained_snoc_aux:
  "pad_chained rnd D c t (es @ [e]) =
     (pad_chained rnd D c t es \<and> ev_start e = fold (\<lambda>e t. rnd (t + c)) es t
      \<and> fold (\<lambda>e t. rnd (t + c)) es t < D
      \<and> ev_dur e = min c (rnd (D - fold (\<lambda>e t. rnd (t + c)) es t)))"
proof (induction es arbitrary: t)
  case Nil show ?case by simp
next
  case (Cons a es)
  show ?case
    unfolding append_Cons pad_chained.simps Cons.IH [of "rnd (t + c)"] fold_simps
    by blast
qed

lemma pad_chained_snoc:
  "pad_chained rnd D c 0 (es @ [e]) =
     (pad_chained rnd D c 0 es \<and> ev_start e = pad_clock rnd c es \<and> pad_clock rnd c es < D
      \<and> ev_dur e = min c (rnd (D - pad_clock rnd c es)))"
  unfolding pad_clock_def by (rule pad_chained_snoc_aux)

lemma triads_snoc:
  "triads xs \<Longrightarrow> triads (xs @ [a, b, c]) =
     (ev_start b = ev_start a \<and> ev_start c = ev_start a \<and> ev_dur b = ev_dur a \<and> ev_dur c = ev_dur a)"
  by (induction xs rule: triads.induct) simp_all

lemma every_third_snoc:
  "triads xs \<Longrightarrow> every_third (xs @ [a, b, c]) = every_third xs @ [a]"
  by (induction xs rule: triads.induct) simp_all

text \<open>One step of the clock, \<^verbatim>\<open>dur = min(B, D - t); t += dur\<close>, under a rounding with a
  bounded relative error: the duration is positive and the clock stays within
  \<open>D (1 + u)\<^sup>2\<close>.\<close>

lemma clock_step:
  assumes rr: "rel_rounding u rnd" and t0: "0 \<le> t" and tD: "t < D" and B: "0 < B"
  shows "0 < min B (rnd (D - t))" and "0 \<le> rnd (t + min B (rnd (D - t)))"
    and "rnd (t + min B (rnd (D - t))) \<le> D * (1 + u)\<^sup>2"
proof -
  from rr have u0: "0 \<le> u" by (simp add: rel_rounding_def)
  define d0 where "d0 = D - t"
  define dr where "dr = rnd d0"
  define s where "s = t + min B dr"
  have d0: "0 < d0" "d0 \<le> D" using t0 tD by (simp_all add: d0_def)
  have dr0: "0 < dr" unfolding dr_def using rr d0(1) by (rule rel_rounding_pos)
  have dr_hi: "dr \<le> d0 * (1 + u)"
    unfolding dr_def using rel_rounding_bounds(2) [OF rr, of d0] d0(1) by simp
  show pos: "0 < min B (rnd (D - t))" using B dr0 by (simp add: dr_def d0_def)
  have s0: "0 \<le> s" using t0 B dr0 by (simp add: s_def)
  show "0 \<le> rnd (t + min B (rnd (D - t)))"
    using rel_rounding_nonneg [OF rr s0] by (simp add: s_def dr_def d0_def)
  have "u * d0 \<le> u * D" using d0(2) u0 by (rule mult_left_mono)
  then have "s \<le> D * (1 + u)"
    using dr_hi by (simp add: s_def d0_def algebra_simps min_def split: if_splits)
  then have "s * (1 + u) \<le> D * (1 + u) * (1 + u)"
    using u0 by (intro mult_right_mono) simp_all
  moreover have "rnd s \<le> s * (1 + u)" using rel_rounding_bounds(2) [OF rr s0] .
  ultimately have "rnd s \<le> D * (1 + u)\<^sup>2" by (simp add: power2_eq_square)
  then show "rnd (t + min B (rnd (D - t))) \<le> D * (1 + u)\<^sup>2"
    by (simp add: s_def dr_def d0_def)
qed

text \<open>
  The step makes progress when the beat is above the resolution of the floats near \<open>D\<close>:
  the new clock has reached \<open>D\<close> or is at least a quarter of a beat, or an eighth of \<open>D\<close>,
  further. When the duration is the clamped one and the clock is past the middle, the
  difference \<open>D - t\<close> is computed without error and the clock lands on \<open>D\<close>.
\<close>

lemma clock_progress:
  assumes fr: "float_rounding u rnd" and D: "rnd D = D"
      and t0: "0 \<le> t" and tD: "t < D" and ft: "rnd t = t"
      and beat: "0 < beat" and res: "16 * u * D \<le> beat" and B: "3 / 8 * beat \<le> B"
  shows "D \<le> rnd (t + min B (rnd (D - t)))
       \<or> t + min (beat / 4) (D / 8) \<le> rnd (t + min B (rnd (D - t)))"
proof -
  from fr have rr: "rel_rounding u rnd"
    and sterbenz: "\<And>a b. rnd a = a \<Longrightarrow> rnd b = b \<Longrightarrow> a \<le> b \<Longrightarrow> b \<le> 2 * a \<Longrightarrow> rnd (b - a) = b - a"
    by (simp_all add: float_rounding_def)
  from rr have u0: "0 \<le> u" and u16: "u \<le> 1 / 16" by (simp_all add: rel_rounding_def)
  define d0 where "d0 = D - t"
  define dr where "dr = rnd d0"
  have Dpos: "0 < D" using t0 tD by simp
  have d0: "0 < d0" "d0 \<le> D" using t0 tD by (simp_all add: d0_def)
  have dr_lo: "d0 * (1 - u) \<le> dr" and dr_hi: "dr \<le> d0 * (1 + u)"
    unfolding dr_def using rel_rounding_bounds [OF rr, of d0] d0(1) by simp_all
  have dr0: "0 < dr" unfolding dr_def using rr d0(1) by (rule rel_rounding_pos)
  have ud0: "u * d0 \<le> u * D" using d0(2) u0 by (rule mult_left_mono)
  have uD0: "0 \<le> u * D" using u0 Dpos by simp
  have uuD: "u * (u * D) \<le> 1 / 16 * (u * D)" using u16 uD0 by (rule mult_right_mono)
  have uD16: "u * D \<le> 1 / 16 * D" using u16 Dpos by (intro mult_right_mono) simp_all
  have key: "s - 17 / 16 * (u * D) \<le> rnd s" if s0: "0 \<le> s" and sle: "s \<le> D + u * D" for s
  proof -
    have "u * s \<le> u * (D + u * D)" using sle u0 by (rule mult_left_mono)
    then have "u * s \<le> u * D + u * (u * D)" by (simp add: algebra_simps)
    then have "u * s \<le> 17 / 16 * (u * D)" using uuD by linarith
    moreover have "s * (1 - u) \<le> rnd s" using rel_rounding_bounds(1) [OF rr s0] .
    ultimately show ?thesis by (simp add: algebra_simps)
  qed
  show ?thesis
  proof (cases "B \<le> dr")
    case True
    then have dur: "min B dr = B" by simp
    have s0: "0 \<le> t + B" using t0 B beat by linarith
    have "t + B \<le> t + d0 * (1 + u)" using True dr_hi by linarith
    then have sle: "t + B \<le> D + u * D" using ud0 by (simp add: d0_def algebra_simps)
    from key [OF s0 sle] have "t + B - 17 / 16 * (u * D) \<le> rnd (t + B)" .
    moreover have "u * D \<le> beat / 16" using res by simp
    ultimately have "t + beat / 4 \<le> rnd (t + B)" using B beat by linarith
    then have "t + min (beat / 4) (D / 8) \<le> rnd (t + min B dr)" unfolding dur by linarith
    then show ?thesis by (simp add: dr_def d0_def)
  next
    case False
    then have dur: "min B dr = dr" by simp
    show ?thesis
    proof (cases "D \<le> 2 * t")
      case True
      have "rnd (D - t) = D - t" using ft D _ True by (rule sterbenz) (use tD in simp)
      then have "t + min B dr = D" unfolding dur by (simp add: dr_def d0_def)
      then have "rnd (t + min B dr) = D" using D by simp
      then show ?thesis by (simp add: dr_def d0_def)
    next
      case F2: False
      have s0: "0 \<le> t + dr" using t0 dr0 by linarith
      have sle: "t + dr \<le> D + u * D" using dr_hi ud0 by (simp add: d0_def algebra_simps)
      have lo: "D - u * D \<le> t + dr" using dr_lo ud0 by (simp add: d0_def algebra_simps)
      from key [OF s0 sle] have "t + dr - 17 / 16 * (u * D) \<le> rnd (t + dr)" .
      then have "D - 33 / 16 * (u * D) \<le> rnd (t + dr)" using lo by linarith
      then have "t + D / 8 \<le> rnd (t + dr)" using uD16 F2 Dpos by linarith
      then have "t + min (beat / 4) (D / 8) \<le> rnd (t + min B dr)" unfolding dur by linarith
      then show ?thesis by (simp add: dr_def d0_def)
    qed
  qed
qed

lemma beats_bound:
  assumes rr: "rel_rounding u rnd" and beat: "0 < beat" and k: "1 / 2 \<le> k"
  shows "3 / 8 * beat \<le> rnd (k * beat)" and "0 < rnd (k * beat)"
proof -
  from rr have u0: "0 \<le> u" and u16: "u \<le> 1 / 16" by (simp_all add: rel_rounding_def)
  have kb: "beat / 2 \<le> k * beat" using k beat by (simp add: field_simps)
  then have kb0: "0 \<le> k * beat" using beat by linarith
  have "u * (k * beat) \<le> 1 / 16 * (k * beat)" using u16 kb0 by (rule mult_right_mono)
  moreover have "k * beat * (1 - u) \<le> rnd (k * beat)" using rel_rounding_bounds(1) [OF rr kb0] .
  moreover have "k * beat * (1 - u) = k * beat - u * (k * beat)" by (simp add: algebra_simps)
  ultimately have "15 / 16 * (k * beat) \<le> rnd (k * beat)" by linarith
  then show "3 / 8 * beat \<le> rnd (k * beat)" using kb beat by linarith
  then show "0 < rnd (k * beat)" using beat by linarith
qed

lemma pads_progress:
  assumes rr: "rel_rounding u rnd" and t0: "0 \<le> t" and tD: "t < D"
      and beat: "0 < beat" and res: "16 * u * D \<le> beat"
  shows "t + beat / 4 \<le> rnd (t + rnd (4 * beat))" and "0 \<le> rnd (t + rnd (4 * beat))"
proof -
  from rr have u0: "0 \<le> u" and u16: "u \<le> 1 / 16" by (simp_all add: rel_rounding_def)
  define C where "C = rnd (4 * beat)"
  have C: "3 / 8 * beat \<le> C" "0 < C" unfolding C_def using beats_bound [OF rr beat, of 4] by simp_all
  have b4: "0 \<le> 4 * beat" using beat by simp
  have "u * (4 * beat) \<le> 1 / 16 * (4 * beat)" using u16 b4 by (rule mult_right_mono)
  moreover have "4 * beat * (1 - u) \<le> C" unfolding C_def using rel_rounding_bounds(1) [OF rr b4] .
  moreover have "4 * beat * (1 - u) = 4 * beat - u * (4 * beat)" by (simp add: algebra_simps)
  ultimately have C3: "3 * beat \<le> C" using beat by linarith
  have s0: "0 \<le> t + C" using t0 C(2) by linarith
  have ut: "u * t \<le> u * D" using u0 tD by (intro mult_left_mono) simp_all
  have uC: "u * C \<le> 1 / 16 * C" using u16 C(2) by (intro mult_right_mono) simp_all
  have "(t + C) * (1 - u) \<le> rnd (t + C)" using rel_rounding_bounds(1) [OF rr s0] .
  then have "t + C - u * t - u * C \<le> rnd (t + C)" by (simp add: algebra_simps)
  moreover have "u * D \<le> beat / 16" using res by simp
  ultimately have "t + beat / 4 \<le> rnd (t + C)" using ut uC C3 beat by linarith
  then show "t + beat / 4 \<le> rnd (t + rnd (4 * beat))" by (simp add: C_def)
  show "0 \<le> rnd (t + rnd (4 * beat))" using rel_rounding_nonneg [OF rr s0] by (simp add: C_def)
qed

section \<open>The generators return, and what they return\<close>

lemma tiling_loop:
  fixes body :: "'s \<Rightarrow> fault + 's" and clock :: "'s \<Rightarrow> real" and evs :: "'s \<Rightarrow> event list"
  assumes fr: "float_rounding u rnd" and Dpos: "0 < D" and D: "rnd D = D"
      and beat: "0 < beat" and res: "16 * u * D \<le> beat"
      and shape: "\<And>st st'. body st = Inr st' \<Longrightarrow>
                    \<exists>B nm. 3 / 8 * beat \<le> B
                      \<and> clock st' = rnd (clock st + min B (rnd (D - clock st)))
                      \<and> evs st' = evs st @ [(nm, min B (rnd (D - clock st)), clock st)]"
      and init: "clock st0 = 0" "evs st0 = []"
  shows "\<exists>r. while_loop (\<lambda>st. clock st < D) body st0 = Some r
           \<and> (case r of
                 Inl e \<Rightarrow> \<exists>st. body st = Inl e
               | Inr st \<Rightarrow> tiles rnd D (evs st) \<and> clock_from rnd 0 (evs st) \<le> D * (1 + u)\<^sup>2)"
proof -
  from fr have rr: "rel_rounding u rnd" and idem: "\<And>x. rnd (rnd x) = rnd x"
    by (simp_all add: float_rounding_def)
  from rr have u0: "0 \<le> u" by (simp add: rel_rounding_def)
  define I where "I = (\<lambda>st. chained rnd D 0 (evs st) \<and> clock_from rnd 0 (evs st) = clock st
                            \<and> 0 \<le> clock st \<and> rnd (clock st) = clock st
                            \<and> clock st \<le> D * (1 + u)\<^sup>2)"
  define h where "h = min (beat / 4) (D / 8)"
  have h: "0 < h" using beat Dpos by (simp add: h_def)
  have inv: "I st' \<and> (D \<le> clock st' \<or> clock st + h \<le> clock st')"
    if "I st" "clock st < D" "body st = Inr st'" for st st'
  proof -
    from that(1) have ch: "chained rnd D 0 (evs st)" and cl: "clock_from rnd 0 (evs st) = clock st"
      and t0: "0 \<le> clock st" and ft: "rnd (clock st) = clock st"
      by (simp_all add: I_def)
    from shape [OF that(3)] obtain B nm where
      B: "3 / 8 * beat \<le> B"
      and c': "clock st' = rnd (clock st + min B (rnd (D - clock st)))"
      and e': "evs st' = evs st @ [(nm, min B (rnd (D - clock st)), clock st)]"
      by blast
    have Bpos: "0 < B" using B beat by linarith
    note cs = clock_step [OF rr t0 that(2) Bpos]
    have "chained rnd D 0 (evs st')"
      unfolding e' chained_snoc cl using ch that(2) cs(1) by (simp add: ev_start_def ev_dur_def)
    moreover have "clock_from rnd 0 (evs st') = clock st'"
      unfolding e' c' clock_from_snoc cl by (simp add: ev_dur_def)
    moreover have "0 \<le> clock st'" unfolding c' by (rule cs(2))
    moreover have "rnd (clock st') = clock st'" unfolding c' by (rule idem)
    moreover have "clock st' \<le> D * (1 + u)\<^sup>2" unfolding c' by (rule cs(3))
    ultimately have "I st'" by (simp add: I_def)
    moreover have "D \<le> clock st' \<or> clock st + h \<le> clock st'"
      unfolding c' h_def by (rule clock_progress [OF fr D t0 that(2) ft beat res B])
    ultimately show ?thesis ..
  qed
  have "rnd 0 = 0" using rr by (rule rel_rounding_zero)
  moreover have "0 \<le> D * (1 + u)\<^sup>2" using Dpos by simp
  ultimately have init': "I st0" by (simp add: I_def init clock_from_def)
  from while_loop_total [of h I clock D body st0, OF h inv init']
  obtain r where r: "while_loop (\<lambda>st. clock st < D) body st0 = Some r" by blast
  have inv': "I s'" if "I s" "clock s < D" "body s = Inr s'" for s s'
    using inv [OF that] by simp
  from while_loop_partial [OF r, of I, OF init' inv']
  have "case r of Inl e \<Rightarrow> \<exists>s. I s \<and> clock s < D \<and> body s = Inl e
                | Inr s' \<Rightarrow> I s' \<and> \<not> clock s' < D" .
  then have "case r of
               Inl e \<Rightarrow> \<exists>st. body st = Inl e
             | Inr st \<Rightarrow> tiles rnd D (evs st) \<and> clock_from rnd 0 (evs st) \<le> D * (1 + u)\<^sup>2"
    by (cases r) (auto simp: I_def tiles_def)
  with r show ?thesis by blast
qed

lemma pads_loop:
  fixes body :: "'s \<Rightarrow> fault + 's" and clock :: "'s \<Rightarrow> real" and evs :: "'s \<Rightarrow> event list"
  assumes rr: "rel_rounding u rnd" and beat: "0 < beat" and res: "16 * u * D \<le> beat"
      and shape: "\<And>st st'. body st = Inr st' \<Longrightarrow>
                    \<exists>x y z. clock st' = rnd (clock st + rnd (4 * beat))
                      \<and> evs st' = evs st
                            @ [(x, min (rnd (4 * beat)) (rnd (D - clock st)), clock st),
                               (y, min (rnd (4 * beat)) (rnd (D - clock st)), clock st),
                               (z, min (rnd (4 * beat)) (rnd (D - clock st)), clock st)]"
      and init: "clock st0 = 0" "evs st0 = []"
  shows "\<exists>r. while_loop (\<lambda>st. clock st < D) body st0 = Some r
           \<and> (case r of
                 Inl e \<Rightarrow> \<exists>st. body st = Inl e
               | Inr st \<Rightarrow> pads_tile rnd D (rnd (4 * beat)) (evs st))"
proof -
  define c where "c = rnd (4 * beat)"
  define I where "I = (\<lambda>st. triads (evs st) \<and> pad_chained rnd D c 0 (every_third (evs st))
                            \<and> pad_clock rnd c (every_third (evs st)) = clock st
                            \<and> 0 \<le> clock st)"
  have h: "0 < beat / 4" using beat by simp
  have inv: "I st' \<and> (D \<le> clock st' \<or> clock st + beat / 4 \<le> clock st')"
    if "I st" "clock st < D" "body st = Inr st'" for st st'
  proof -
    from that(1) have tr: "triads (evs st)"
      and ch: "pad_chained rnd D c 0 (every_third (evs st))"
      and cl: "pad_clock rnd c (every_third (evs st)) = clock st"
      and t0: "0 \<le> clock st"
      by (simp_all add: I_def)
    from shape [OF that(3)] obtain x y z where
      c': "clock st' = rnd (clock st + c)"
      and e': "evs st' = evs st @ [(x, min c (rnd (D - clock st)), clock st),
                                   (y, min c (rnd (D - clock st)), clock st),
                                   (z, min c (rnd (D - clock st)), clock st)]"
      unfolding c_def by blast
    note pp = pads_progress [OF rr t0 that(2) beat res, folded c_def]
    have "triads (evs st')"
      unfolding e' using tr by (simp add: triads_snoc ev_start_def ev_dur_def)
    moreover have et: "every_third (evs st')
                         = every_third (evs st) @ [(x, min c (rnd (D - clock st)), clock st)]"
      unfolding e' using tr by (rule every_third_snoc)
    moreover have "pad_chained rnd D c 0 (every_third (evs st'))"
      unfolding et pad_chained_snoc cl using ch that(2) by (simp add: ev_start_def ev_dur_def)
    moreover have "pad_clock rnd c (every_third (evs st')) = clock st'"
      unfolding et c' pad_clock_snoc cl ..
    moreover have "0 \<le> clock st'" unfolding c' by (rule pp(2))
    ultimately have "I st'" by (simp add: I_def)
    moreover have "clock st + beat / 4 \<le> clock st'" unfolding c' by (rule pp(1))
    ultimately show ?thesis by simp
  qed
  have init': "I st0" by (simp add: I_def init pad_clock_def)
  from while_loop_total [of "beat / 4" I clock D body st0, OF h inv init']
  obtain r where r: "while_loop (\<lambda>st. clock st < D) body st0 = Some r" by blast
  have inv': "I s'" if "I s" "clock s < D" "body s = Inr s'" for s s'
    using inv [OF that] by simp
  from while_loop_partial [OF r, of I, OF init' inv']
  have "case r of Inl e \<Rightarrow> \<exists>s. I s \<and> clock s < D \<and> body s = Inl e
                | Inr s' \<Rightarrow> I s' \<and> \<not> clock s' < D" .
  then have "case r of
               Inl e \<Rightarrow> \<exists>st. body st = Inl e
             | Inr st \<Rightarrow> pads_tile rnd D c (evs st)"
    by (cases r) (auto simp: I_def pads_tile_def)
  with r show ?thesis unfolding c_def by blast
qed

lemma melody_loop_result:
  assumes fr: "float_rounding u rnd" and Dpos: "0 < D" and D: "rnd D = D"
      and beat: "0 < beat" and res: "16 * u * D \<le> beat"
  shows "\<exists>r. while_loop (\<lambda>st. fst st < D) (melody_step rnd D prog beat motif) (0, [], g) = Some r
           \<and> (case r of
                 Inl e \<Rightarrow> \<exists>st. melody_step rnd D prog beat motif st = Inl e
               | Inr st \<Rightarrow> tiles rnd D (fst (snd st))
                            \<and> clock_from rnd 0 (fst (snd st)) \<le> D * (1 + u)\<^sup>2)"
proof (rule tiling_loop [where clock = fst and evs = "\<lambda>st. fst (snd st)", OF fr Dpos D beat res])
  from fr have rr: "rel_rounding u rnd" by (simp add: float_rounding_def)
  fix st st' :: "real \<times> event list \<times> py_rng"
  assume "melody_step rnd D prog beat motif st = Inr st'"
  from melody_step_Inr [OF this] obtain nt k g' where
    k: "k \<in> {1 / 2, 1, 2}" and
    st': "st' = (rnd (fst st + min (rnd (k * beat)) (rnd (D - fst st))),
                 fst (snd st) @ [(nt, min (rnd (k * beat)) (rnd (D - fst st)), fst st)], g')"
    by blast
  have "1 / 2 \<le> k" using k by auto
  from beats_bound(1) [OF rr beat this] have "3 / 8 * beat \<le> rnd (k * beat)" .
  then show "\<exists>B nm. 3 / 8 * beat \<le> B
               \<and> fst st' = rnd (fst st + min B (rnd (D - fst st)))
               \<and> fst (snd st') = fst (snd st) @ [(nm, min B (rnd (D - fst st)), fst st)]"
    unfolding st' by (intro exI [of _ "rnd (k * beat)"] exI [of _ nt]) simp
qed simp_all

lemma arpeggio_loop_result:
  assumes fr: "float_rounding u rnd" and Dpos: "0 < D" and D: "rnd D = D"
      and beat: "0 < beat" and res: "16 * u * D \<le> beat"
  shows "\<exists>r. while_loop (\<lambda>st. fst st < D) (arpeggio_step rnd D prog beat style) (0, 0, [], g) = Some r
           \<and> (case r of
                 Inl e \<Rightarrow> \<exists>st. arpeggio_step rnd D prog beat style st = Inl e
               | Inr st \<Rightarrow> tiles rnd D (fst (snd (snd st)))
                            \<and> clock_from rnd 0 (fst (snd (snd st))) \<le> D * (1 + u)\<^sup>2)"
proof (rule tiling_loop [where clock = fst and evs = "\<lambda>st. fst (snd (snd st))",
      OF fr Dpos D beat res])
  from fr have rr: "rel_rounding u rnd" by (simp add: float_rounding_def)
  fix st st' :: "real \<times> nat \<times> event list \<times> py_rng"
  assume "arpeggio_step rnd D prog beat style st = Inr st'"
  from arpeggio_step_Inr [OF this] obtain nt g' where
    st': "st' = (rnd (fst st + min (rnd (beat / 2)) (rnd (D - fst st))), fst (snd st) + 1,
                 fst (snd (snd st)) @ [(nt, min (rnd (beat / 2)) (rnd (D - fst st)), fst st)], g')"
    by blast
  from beats_bound(1) [OF rr beat, of "1 / 2"] have "3 / 8 * beat \<le> rnd (beat / 2)" by simp
  then show "\<exists>B nm. 3 / 8 * beat \<le> B
               \<and> fst st' = rnd (fst st + min B (rnd (D - fst st)))
               \<and> fst (snd (snd st')) = fst (snd (snd st)) @ [(nm, min B (rnd (D - fst st)), fst st)]"
    unfolding st' by (intro exI [of _ "rnd (beat / 2)"] exI [of _ nt]) simp
qed simp_all

lemma bass_loop_result:
  assumes fr: "float_rounding u rnd" and Dpos: "0 < D" and D: "rnd D = D"
      and beat: "0 < beat" and res: "16 * u * D \<le> beat"
  shows "\<exists>r. while_loop (\<lambda>st. fst st < D) (bass_step rnd D prog beat) (0, 0, []) = Some r
           \<and> (case r of
                 Inl e \<Rightarrow> \<exists>st. bass_step rnd D prog beat st = Inl e
               | Inr st \<Rightarrow> tiles rnd D (snd (snd st))
                            \<and> clock_from rnd 0 (snd (snd st)) \<le> D * (1 + u)\<^sup>2)"
proof (rule tiling_loop [where clock = fst and evs = "\<lambda>st. snd (snd st)", OF fr Dpos D beat res])
  from fr have rr: "rel_rounding u rnd" by (simp add: float_rounding_def)
  fix st st' :: "real \<times> nat \<times> event list"
  assume "bass_step rnd D prog beat st = Inr st'"
  from bass_step_Inr [OF this] obtain c where
    st': "st' = (rnd (fst st + min (rnd (4 * beat)) (rnd (D - fst st))), fst (snd st) + 1,
                 snd (snd st) @ [(c, min (rnd (4 * beat)) (rnd (D - fst st)), fst st)])"
    by blast
  from beats_bound(1) [OF rr beat, of 4] have "3 / 8 * beat \<le> rnd (4 * beat)" by simp
  then show "\<exists>B nm. 3 / 8 * beat \<le> B
               \<and> fst st' = rnd (fst st + min B (rnd (D - fst st)))
               \<and> snd (snd st') = snd (snd st) @ [(nm, min B (rnd (D - fst st)), fst st)]"
    unfolding st' by (intro exI [of _ "rnd (4 * beat)"] exI [of _ c]) simp
qed simp_all

lemma pads_loop_result:
  assumes rr: "rel_rounding u rnd" and beat: "0 < beat" and res: "16 * u * D \<le> beat"
  shows "\<exists>r. while_loop (\<lambda>st. fst st < D) (pads_step rnd D prog beat) (0, 0, []) = Some r
           \<and> (case r of
                 Inl e \<Rightarrow> \<exists>st. pads_step rnd D prog beat st = Inl e
               | Inr st \<Rightarrow> pads_tile rnd D (rnd (4 * beat)) (snd (snd st)))"
proof (rule pads_loop [where clock = fst and evs = "\<lambda>st. snd (snd st)", OF rr beat res])
  fix st st' :: "real \<times> nat \<times> event list"
  assume "pads_step rnd D prog beat st = Inr st'"
  from pads_step_Inr [OF this] obtain x y z where
    st': "st' = (rnd (fst st + rnd (4 * beat)), fst (snd st) + 1,
                 snd (snd st)
                   @ [(x, min (rnd (4 * beat)) (rnd (D - fst st)), fst st),
                      (y, min (rnd (4 * beat)) (rnd (D - fst st)), fst st),
                      (z, min (rnd (4 * beat)) (rnd (D - fst st)), fst st)])"
    by blast
  show "\<exists>x y z. fst st' = rnd (fst st + rnd (4 * beat))
               \<and> snd (snd st') = snd (snd st)
                     @ [(x, min (rnd (4 * beat)) (rnd (D - fst st)), fst st),
                        (y, min (rnd (4 * beat)) (rnd (D - fst st)), fst st),
                        (z, min (rnd (4 * beat)) (rnd (D - fst st)), fst st)]"
    unfolding st' by (intro exI [of _ x] exI [of _ y] exI [of _ z]) simp
qed simp_all

lemma f64_unit_interval:
  assumes "0 \<le> x" and "x \<le> 1 + 1 / 2 ^ 54"
  shows "0 \<le> f64 x" and "f64 x \<le> 1"
proof -
  show "0 \<le> f64 x" using f64_rel_rounding assms(1) by (rule rel_rounding_nonneg)
  show "f64 x \<le> 1"
  proof (cases "x = 0")
    case True then show ?thesis by (simp add: f64_def)
  next
    case nz: False
    show ?thesis
    proof (cases "x < 1")
      case True
      from f64_range [OF nz] obtain m where
        fx: "f64 x = real_of_int m * pow2 (f64_exponent x - 52)" and m: "\<bar>m\<bar> \<le> 2 ^ 53" by blast
      have "pow2 (f64_exponent x) \<le> \<bar>x\<bar>" using nz by (rule f64_exponent_bounds(1))
      also have "\<bar>x\<bar> < pow2 0" using True assms(1) by (simp add: pow2_def)
      finally have "f64_exponent x + 1 \<le> 0" by (simp add: pow2_less_iff)
      then have le1: "pow2 (f64_exponent x + 1) \<le> 1"
        using pow2_le_iff [of "f64_exponent x + 1" 0] by (simp add: pow2_def)
      have "real_of_int m \<le> real_of_int (2 ^ 53)" using m by (simp only: of_int_le_iff)
      then have "real_of_int m * pow2 (f64_exponent x - 52) \<le> 2 ^ 53 * pow2 (f64_exponent x - 52)"
        using pow2_pos [of "f64_exponent x - 52"] by (intro mult_right_mono) simp_all
      also have "\<dots> = pow2 (f64_exponent x + 1)"
        using pow2_split53 [of "f64_exponent x"] pow2_of_nat [of 53] by simp
      finally show ?thesis using fx le1 by linarith
    next
      case False
      then have x1: "1 \<le> x" by simp
      have a: "pow2 0 \<le> \<bar>x\<bar>" using x1 by (simp add: pow2_def)
      have b: "\<bar>x\<bar> < pow2 (0 + 1)" using x1 assms(2) by (simp add: pow2_def)
      have p: "pow2 (0 - 52) = 1 / 2 ^ 52" by (simp add: pow2_def)
      define y where "y = x * 2 ^ 52"
      have y1: "real_of_int (2 ^ 52) \<le> y" using x1 by (simp add: y_def)
      have y2: "y \<le> real_of_int (2 ^ 52) + 1 / 4" using assms(2) by (simp add: y_def)
      have fl: "\<lfloor>y\<rfloor> = 2 ^ 52" using y1 y2 by (intro floor_unique) linarith+
      have "round_half_even y = 2 ^ 52"
        using y1 y2 by (simp add: round_half_even_def Let_def fl)
      then have "f64 x = 1"
        unfolding f64_eval [OF a b] p by (simp add: y_def)
      then show ?thesis by simp
    qed
  qed
qed

text \<open>
  Claim C4, as amended. In an arithmetic with the properties of a binary float format, for
  a positive tempo whose beat is not below the resolution of the floats at \<open>D\<close>
  (\<open>beat \<ge> 16 u D\<close>; in binary64 with \<open>D = 15\<close> every tempo up to \<open>10\<^sup>1\<^sup>5\<close> bpm), a positive
  float \<open>D\<close>, a progression of chords of the chord table and a motif that is not empty, each
  generator returns. The events of the melody, of the arpeggio and of the bassline follow
  one another on the float clock: the first starts at 0, each next one at the float sum of
  the start and the duration of its predecessor, each starts before \<open>D\<close> and lasts a
  positive time that is at most the float \<open>D - start\<close>, and the clock after the last one,
  which is the float sum of all durations, is at least \<open>D\<close> and at most \<open>D (1 + u)\<^sup>2\<close>. The
  pads come in runs of three events with one start and one duration, one run per chord;
  the runs start at 0 and then at the float sum of the previous start and the chord
  length, each lasts the chord length or the float \<open>D - start\<close> if that is shorter, and
  the clock after the last run has reached \<open>D\<close>. In exact arithmetic the events need not
  be contiguous, and their durations need not add up to \<open>D\<close>; the counterexample follows.
\<close>

theorem generators_cover:
  assumes fr: "float_rounding u rnd" and bpm: "0 < bpm" and Dpos: "0 < D" and D: "rnd D = D"
      and res: "16 * u * D \<le> rnd (60 / bpm)"
      and p1: "prog \<noteq> []" and p2: "set prog \<subseteq> dom chord_notes" and p3: "motif \<noteq> []"
  shows "(\<exists>es g'. make_melody rnd D prog bpm motif g = Some (Inr (es, g'))
            \<and> tiles rnd D es \<and> clock_from rnd 0 es \<le> D * (1 + u)\<^sup>2)
       \<and> (\<exists>es g'. make_arpeggio rnd D prog bpm g = Some (Inr (es, g'))
            \<and> tiles rnd D es \<and> clock_from rnd 0 es \<le> D * (1 + u)\<^sup>2)
       \<and> (\<exists>es. make_bass rnd D prog bpm = Some (Inr es)
            \<and> tiles rnd D es \<and> clock_from rnd 0 es \<le> D * (1 + u)\<^sup>2)
       \<and> (\<exists>es. make_pads rnd D prog bpm = Some (Inr es)
            \<and> pads_tile rnd D (rnd (4 * rnd (60 / bpm))) es)"
proof -
  from fr have rr: "rel_rounding u rnd" by (simp add: float_rounding_def)
  define beat where "beat = rnd (60 / bpm)"
  have nz: "bpm \<noteq> 0" using bpm by simp
  have beat: "0 < beat"
    unfolding beat_def using rel_rounding_pos [OF rr, of "60 / bpm"] bpm by simp
  have res': "16 * u * D \<le> beat" using res by (simp add: beat_def)
  have c4: "rnd (4 * beat) \<noteq> 0" using beats_bound(2) [OF rr beat, of 4] by simp
  have mel: "\<exists>es g'. make_melody rnd D prog bpm motif g = Some (Inr (es, g'))
               \<and> tiles rnd D es \<and> clock_from rnd 0 es \<le> D * (1 + u)\<^sup>2"
  proof -
    from melody_loop_result [OF fr Dpos D beat res', of prog motif g] obtain r where
      r: "while_loop (\<lambda>st. fst st < D) (melody_step rnd D prog beat motif) (0, [], g) = Some r" and
      c: "case r of
            Inl e \<Rightarrow> \<exists>st. melody_step rnd D prog beat motif st = Inl e
          | Inr st \<Rightarrow> tiles rnd D (fst (snd st)) \<and> clock_from rnd 0 (fst (snd st)) \<le> D * (1 + u)\<^sup>2"
      by blast
    show ?thesis
    proof (cases r)
      case (Inl e)
      with c melody_step_ok [where rnd = rnd and beat = beat, OF p1 p2 p3 c4] show ?thesis by auto
    next
      case (Inr st)
      with c have "tiles rnd D (fst (snd st)) \<and> clock_from rnd 0 (fst (snd st)) \<le> D * (1 + u)\<^sup>2"
        by simp
      moreover have "make_melody rnd D prog bpm motif g = Some (Inr (fst (snd st), snd (snd st)))"
        using r nz Inr by (simp add: make_melody_def beat_def)
      ultimately show ?thesis by blast
    qed
  qed
  have arp: "\<exists>es g'. make_arpeggio rnd D prog bpm g = Some (Inr (es, g'))
               \<and> tiles rnd D es \<and> clock_from rnd 0 es \<le> D * (1 + u)\<^sup>2"
  proof -
    obtain style g0 where st: "py_choice [''asc'', ''desc'', ''rand''] g = Inr (style, g0)"
      using py_choice_Inr [of "[''asc'', ''desc'', ''rand'']" g] by auto
    from arpeggio_loop_result [OF fr Dpos D beat res', of prog style g0] obtain r where
      r: "while_loop (\<lambda>st. fst st < D) (arpeggio_step rnd D prog beat style) (0, 0, [], g0) = Some r"
      and c: "case r of
            Inl e \<Rightarrow> \<exists>st. arpeggio_step rnd D prog beat style st = Inl e
          | Inr st \<Rightarrow> tiles rnd D (fst (snd (snd st)))
                       \<and> clock_from rnd 0 (fst (snd (snd st))) \<le> D * (1 + u)\<^sup>2"
      by blast
    show ?thesis
    proof (cases r)
      case (Inl e)
      with c arpeggio_step_no_fault [where rnd = rnd and beat = beat, OF p1 p2 c4]
      show ?thesis by auto
    next
      case (Inr st)
      with c have "tiles rnd D (fst (snd (snd st)))
                   \<and> clock_from rnd 0 (fst (snd (snd st))) \<le> D * (1 + u)\<^sup>2"
        by simp
      moreover have "make_arpeggio rnd D prog bpm g
                       = Some (Inr (fst (snd (snd st)), snd (snd (snd st))))"
        using r nz Inr st by (simp add: make_arpeggio_def beat_def)
      ultimately show ?thesis by blast
    qed
  qed
  have bass: "\<exists>es. make_bass rnd D prog bpm = Some (Inr es)
               \<and> tiles rnd D es \<and> clock_from rnd 0 es \<le> D * (1 + u)\<^sup>2"
  proof -
    from bass_loop_result [OF fr Dpos D beat res', of prog] obtain r where
      r: "while_loop (\<lambda>st. fst st < D) (bass_step rnd D prog beat) (0, 0, []) = Some r" and
      c: "case r of
            Inl e \<Rightarrow> \<exists>st. bass_step rnd D prog beat st = Inl e
          | Inr st \<Rightarrow> tiles rnd D (snd (snd st)) \<and> clock_from rnd 0 (snd (snd st)) \<le> D * (1 + u)\<^sup>2"
      by blast
    show ?thesis
    proof (cases r)
      case (Inl e)
      with c bass_step_ok [OF p1] show ?thesis by auto
    next
      case (Inr st)
      with c have "tiles rnd D (snd (snd st)) \<and> clock_from rnd 0 (snd (snd st)) \<le> D * (1 + u)\<^sup>2"
        by simp
      moreover have "make_bass rnd D prog bpm = Some (Inr (snd (snd st)))"
        using r nz Inr by (simp add: make_bass_def beat_def)
      ultimately show ?thesis by blast
    qed
  qed
  have pads: "\<exists>es. make_pads rnd D prog bpm = Some (Inr es)
               \<and> pads_tile rnd D (rnd (4 * rnd (60 / bpm))) es"
  proof -
    from pads_loop_result [OF rr beat res', of prog] obtain r where
      r: "while_loop (\<lambda>st. fst st < D) (pads_step rnd D prog beat) (0, 0, []) = Some r" and
      c: "case r of
            Inl e \<Rightarrow> \<exists>st. pads_step rnd D prog beat st = Inl e
          | Inr st \<Rightarrow> pads_tile rnd D (rnd (4 * beat)) (snd (snd st))"
      by blast
    show ?thesis
    proof (cases r)
      case (Inl e)
      with c pads_step_ok [OF p1 p2] show ?thesis by auto
    next
      case (Inr st)
      with c have "pads_tile rnd D (rnd (4 * beat)) (snd (snd st))" by simp
      moreover have "make_pads rnd D prog bpm = Some (Inr (snd (snd st)))"
        using r nz Inr by (simp add: make_pads_def beat_def)
      ultimately show ?thesis unfolding beat_def by blast
    qed
  qed
  from mel arp bass pads show ?thesis by blast
qed

text \<open>The 15 s of the program at 112 bpm over its first progression, in binary64.\<close>

theorem generators_cover_witness:
  "(\<exists>es g'. make_melody f64 DURATION (chord_progressions ! 0) 112 [''C4'', ''D4'', ''E4''] (\<lambda>k. k)
               = Some (Inr (es, g'))
        \<and> tiles f64 DURATION es \<and> clock_from f64 0 es \<le> DURATION * (1 + 1 / 2 ^ 53)\<^sup>2)
   \<and> (\<exists>es g'. make_arpeggio f64 DURATION (chord_progressions ! 0) 112 (\<lambda>k. k) = Some (Inr (es, g'))
        \<and> tiles f64 DURATION es \<and> clock_from f64 0 es \<le> DURATION * (1 + 1 / 2 ^ 53)\<^sup>2)
   \<and> (\<exists>es. make_bass f64 DURATION (chord_progressions ! 0) 112 = Some (Inr es)
        \<and> tiles f64 DURATION es \<and> clock_from f64 0 es \<le> DURATION * (1 + 1 / 2 ^ 53)\<^sup>2)
   \<and> (\<exists>es. make_pads f64 DURATION (chord_progressions ! 0) 112 = Some (Inr es)
        \<and> pads_tile f64 DURATION (f64 (4 * f64 (60 / 112))) es)"
proof -
  have a: "(0::real) < 112" "0 < DURATION" by (simp_all add: DURATION_def)
  have b: "f64 DURATION = DURATION" by (simp add: DURATION_def f64_table)
  have c: "16 * (1 / 2 ^ 53) * DURATION \<le> f64 (60 / 112)" by (simp add: DURATION_def f64_table)
  have d: "chord_progressions ! 0 \<noteq> []" "[''C4'', ''D4'', ''E4''] \<noteq> []"
    by (simp_all add: chord_progressions_def)
  have e: "set (chord_progressions ! 0) \<subseteq> dom chord_notes"
    by (simp add: chord_progressions_def chord_notes_def)
  from generators_cover [where rnd = f64 and g = "\<lambda>k. k", OF f64_float_rounding a b c d(1) e d(2)]
  show ?thesis .
qed

text \<open>
  Two runs of the program's own parameters in binary64. The pads at 120 bpm over the
  first progression are 24 events, the first three all starting at 0 and lasting 2 s: they
  are not contiguous, and their durations add up to 45 s, three times the 15 s of the
  piece. The bassline at 112 bpm is eight events, not seven: the clock after the seventh
  is 14.999999999999998, and an eighth event of \<open>2\<^sup>-\<^sup>4\<^sup>9\<close> s follows; the fourth event starts
  at the float sum of the start and the duration of the third, which is not their exact
  sum, and the durations add up to a little more than 15.
\<close>

theorem generators_do_not_tile_exactly:
  "make_pads f64 DURATION (chord_progressions ! 0) 120 =
     Some (Inr [(''C4'', 2, 0), (''E4'', 2, 0), (''G4'', 2, 0),
                (''G4'', 2, 2), (''B4'', 2, 2), (''D5'', 2, 2),
                (''A4'', 2, 4), (''C5'', 2, 4), (''E5'', 2, 4),
                (''F4'', 2, 6), (''A4'', 2, 6), (''C5'', 2, 6),
                (''C4'', 2, 8), (''E4'', 2, 8), (''G4'', 2, 8),
                (''G4'', 2, 10), (''B4'', 2, 10), (''D5'', 2, 10),
                (''A4'', 2, 12), (''C5'', 2, 12), (''E5'', 2, 12),
                (''F4'', 1, 14), (''A4'', 1, 14), (''C5'', 1, 14)])
   \<and> \<not> contiguous 0 [(''C4'', 2, 0), (''E4'', 2, 0), (''G4'', 2, 0),
                (''G4'', 2, 2), (''B4'', 2, 2), (''D5'', 2, 2),
                (''A4'', 2, 4), (''C5'', 2, 4), (''E5'', 2, 4),
                (''F4'', 2, 6), (''A4'', 2, 6), (''C5'', 2, 6),
                (''C4'', 2, 8), (''E4'', 2, 8), (''G4'', 2, 8),
                (''G4'', 2, 10), (''B4'', 2, 10), (''D5'', 2, 10),
                (''A4'', 2, 12), (''C5'', 2, 12), (''E5'', 2, 12),
                (''F4'', 1, 14), (''A4'', 1, 14), (''C5'', 1, 14)]
   \<and> total_dur [(''C4'', 2, 0), (''E4'', 2, 0), (''G4'', 2, 0),
                (''G4'', 2, 2), (''B4'', 2, 2), (''D5'', 2, 2),
                (''A4'', 2, 4), (''C5'', 2, 4), (''E5'', 2, 4),
                (''F4'', 2, 6), (''A4'', 2, 6), (''C5'', 2, 6),
                (''C4'', 2, 8), (''E4'', 2, 8), (''G4'', 2, 8),
                (''G4'', 2, 10), (''B4'', 2, 10), (''D5'', 2, 10),
                (''A4'', 2, 12), (''C5'', 2, 12), (''E5'', 2, 12),
                (''F4'', 1, 14), (''A4'', 1, 14), (''C5'', 1, 14)] = 45
   \<and> make_bass f64 DURATION (chord_progressions ! 0) 112 =
     Some (Inr [(''C3'', 4825285315039817 / 2251799813685248, 0),
                (''G3'', 4825285315039817 / 2251799813685248, 4825285315039817 / 2251799813685248),
                (''A3'', 4825285315039817 / 2251799813685248, 4825285315039817 / 1125899906842624),
                (''F3'', 4825285315039817 / 2251799813685248, 3618963986279863 / 562949953421312),
                (''C3'', 4825285315039817 / 2251799813685248, 4825285315039817 / 562949953421312),
                (''G3'', 4825285315039817 / 2251799813685248, 6031606643799771 / 562949953421312),
                (''A3'', 4825285315039817 / 2251799813685248, 7237927972559725 / 562949953421312),
                (''F3'', 1 / 562949953421312, 8444249301319679 / 562949953421312)])
   \<and> \<not> contiguous 0 [(''C3'', 4825285315039817 / 2251799813685248, 0),
                (''G3'', 4825285315039817 / 2251799813685248, 4825285315039817 / 2251799813685248),
                (''A3'', 4825285315039817 / 2251799813685248, 4825285315039817 / 1125899906842624),
                (''F3'', 4825285315039817 / 2251799813685248, 3618963986279863 / 562949953421312),
                (''C3'', 4825285315039817 / 2251799813685248, 4825285315039817 / 562949953421312),
                (''G3'', 4825285315039817 / 2251799813685248, 6031606643799771 / 562949953421312),
                (''A3'', 4825285315039817 / 2251799813685248, 7237927972559725 / 562949953421312),
                (''F3'', 1 / 562949953421312, 8444249301319679 / 562949953421312)]
   \<and> total_dur [(''C3'', 4825285315039817 / 2251799813685248, 0),
                (''G3'', 4825285315039817 / 2251799813685248, 4825285315039817 / 2251799813685248),
                (''A3'', 4825285315039817 / 2251799813685248, 4825285315039817 / 1125899906842624),
                (''F3'', 4825285315039817 / 2251799813685248, 3618963986279863 / 562949953421312),
                (''C3'', 4825285315039817 / 2251799813685248, 4825285315039817 / 562949953421312),
                (''G3'', 4825285315039817 / 2251799813685248, 6031606643799771 / 562949953421312),
                (''A3'', 4825285315039817 / 2251799813685248, 7237927972559725 / 562949953421312),
                (''F3'', 1 / 562949953421312, 8444249301319679 / 562949953421312)] = 33776997205278723 / 2251799813685248"
proof (intro conjI)
  show "make_pads f64 DURATION (chord_progressions ! 0) 120 =
     Some (Inr [(''C4'', 2, 0), (''E4'', 2, 0), (''G4'', 2, 0),
                (''G4'', 2, 2), (''B4'', 2, 2), (''D5'', 2, 2),
                (''A4'', 2, 4), (''C5'', 2, 4), (''E5'', 2, 4),
                (''F4'', 2, 6), (''A4'', 2, 6), (''C5'', 2, 6),
                (''C4'', 2, 8), (''E4'', 2, 8), (''G4'', 2, 8),
                (''G4'', 2, 10), (''B4'', 2, 10), (''D5'', 2, 10),
                (''A4'', 2, 12), (''C5'', 2, 12), (''E5'', 2, 12),
                (''F4'', 1, 14), (''A4'', 1, 14), (''C5'', 1, 14)])"
    by (simp add: make_pads_def DURATION_def chord_progressions_def while_loop.simps pads_step_def
          cyclic_get_def getitem_def chord_notes_def Let_def f64_table)
  show "make_bass f64 DURATION (chord_progressions ! 0) 112 =
     Some (Inr [(''C3'', 4825285315039817 / 2251799813685248, 0),
                (''G3'', 4825285315039817 / 2251799813685248, 4825285315039817 / 2251799813685248),
                (''A3'', 4825285315039817 / 2251799813685248, 4825285315039817 / 1125899906842624),
                (''F3'', 4825285315039817 / 2251799813685248, 3618963986279863 / 562949953421312),
                (''C3'', 4825285315039817 / 2251799813685248, 4825285315039817 / 562949953421312),
                (''G3'', 4825285315039817 / 2251799813685248, 6031606643799771 / 562949953421312),
                (''A3'', 4825285315039817 / 2251799813685248, 7237927972559725 / 562949953421312),
                (''F3'', 1 / 562949953421312, 8444249301319679 / 562949953421312)])"
    by (simp add: make_bass_def DURATION_def chord_progressions_def while_loop.simps bass_step_def
          cyclic_get_def Let_def f64_table)
qed (simp_all add: total_dur_def ev_start_def ev_dur_def)

text \<open>
  Claim C10, as amended. In an arithmetic with the properties of a binary float format,
  for a positive float \<open>D\<close> and a positive tempo whose beat is not below the resolution of
  the floats at \<open>D\<close> (\<open>beat \<ge> 16 u D\<close>), every tonal generator returns, whatever the
  progression, the motif and the random draws (a fault is a return too). Each iteration of
  the melody, the arpeggio and the bassline that completes from a float clock in
  \<open>[0, D)\<close> brings the clock to \<open>D\<close> or moves it forward by at least a quarter of a beat
  or an eighth of \<open>D\<close>, and each iteration of the pads moves it forward by at least a
  quarter of a beat. Without the bound on the tempo the clock can stop moving; the
  counterexample follows.
\<close>

theorem generators_terminate:
  assumes fr: "float_rounding u rnd" and bpm: "0 < bpm" and Dpos: "0 < D" and D: "rnd D = D"
      and res: "16 * u * D \<le> rnd (60 / bpm)"
  shows "(\<exists>r. make_melody rnd D prog bpm motif g = Some r)
       \<and> (\<exists>r. make_arpeggio rnd D prog bpm g = Some r)
       \<and> (\<exists>r. make_bass rnd D prog bpm = Some r)
       \<and> (\<exists>r. make_pads rnd D prog bpm = Some r)
       \<and> (\<forall>st st'. 0 \<le> fst st \<and> fst st < D \<and> rnd (fst st) = fst st
               \<and> melody_step rnd D prog (rnd (60 / bpm)) motif st = Inr st'
             \<longrightarrow> D \<le> fst st' \<or> fst st + min (rnd (60 / bpm) / 4) (D / 8) \<le> fst st')
       \<and> (\<forall>style st st'. 0 \<le> fst st \<and> fst st < D \<and> rnd (fst st) = fst st
               \<and> arpeggio_step rnd D prog (rnd (60 / bpm)) style st = Inr st'
             \<longrightarrow> D \<le> fst st' \<or> fst st + min (rnd (60 / bpm) / 4) (D / 8) \<le> fst st')
       \<and> (\<forall>st st'. 0 \<le> fst st \<and> fst st < D \<and> rnd (fst st) = fst st
               \<and> bass_step rnd D prog (rnd (60 / bpm)) st = Inr st'
             \<longrightarrow> D \<le> fst st' \<or> fst st + min (rnd (60 / bpm) / 4) (D / 8) \<le> fst st')
       \<and> (\<forall>st st'. 0 \<le> fst st \<and> fst st < D
               \<and> pads_step rnd D prog (rnd (60 / bpm)) st = Inr st'
             \<longrightarrow> fst st + rnd (60 / bpm) / 4 \<le> fst st')"
proof -
  from fr have rr: "rel_rounding u rnd" by (simp add: float_rounding_def)
  define beat where "beat = rnd (60 / bpm)"
  have nz: "bpm \<noteq> 0" using bpm by simp
  have beat: "0 < beat"
    unfolding beat_def using rel_rounding_pos [OF rr, of "60 / bpm"] bpm by simp
  have res': "16 * u * D \<le> beat" using res by (simp add: beat_def)
  have mel: "\<exists>r. make_melody rnd D prog bpm motif g = Some r"
    using melody_loop_result [OF fr Dpos D beat res', of prog motif g] nz
    by (auto simp: make_melody_def beat_def)
  have arp: "\<exists>r. make_arpeggio rnd D prog bpm g = Some r"
  proof -
    obtain style g0 where st: "py_choice [''asc'', ''desc'', ''rand''] g = Inr (style, g0)"
      using py_choice_Inr [of "[''asc'', ''desc'', ''rand'']" g] by auto
    show ?thesis
      using arpeggio_loop_result [OF fr Dpos D beat res', of prog style g0] nz st
      by (auto simp: make_arpeggio_def beat_def)
  qed
  have bass: "\<exists>r. make_bass rnd D prog bpm = Some r"
    using bass_loop_result [OF fr Dpos D beat res', of prog] nz
    by (auto simp: make_bass_def beat_def)
  have pads: "\<exists>r. make_pads rnd D prog bpm = Some r"
    using pads_loop_result [OF rr beat res', of prog] nz by (auto simp: make_pads_def beat_def)
  have smel: "D \<le> fst st' \<or> fst st + min (beat / 4) (D / 8) \<le> fst st'"
    if "0 \<le> fst st" "fst st < D" "rnd (fst st) = fst st"
       "melody_step rnd D prog beat motif st = Inr st'" for st st'
  proof -
    from melody_step_Inr [OF that(4)] obtain nt k g' where
      k: "k \<in> {1 / 2, 1, 2}" and
      st': "st' = (rnd (fst st + min (rnd (k * beat)) (rnd (D - fst st))),
                   fst (snd st) @ [(nt, min (rnd (k * beat)) (rnd (D - fst st)), fst st)], g')"
      by blast
    have "1 / 2 \<le> k" using k by auto
    from beats_bound(1) [OF rr beat this] have B: "3 / 8 * beat \<le> rnd (k * beat)" .
    show ?thesis
      unfolding st' fst_conv by (rule clock_progress [OF fr D that(1,2,3) beat res' B])
  qed
  have sarp: "D \<le> fst st' \<or> fst st + min (beat / 4) (D / 8) \<le> fst st'"
    if "0 \<le> fst st" "fst st < D" "rnd (fst st) = fst st"
       "arpeggio_step rnd D prog beat style st = Inr st'" for style st st'
  proof -
    from arpeggio_step_Inr [OF that(4)] obtain nt g' where
      st': "st' = (rnd (fst st + min (rnd (beat / 2)) (rnd (D - fst st))), fst (snd st) + 1,
                   fst (snd (snd st)) @ [(nt, min (rnd (beat / 2)) (rnd (D - fst st)), fst st)], g')"
      by blast
    from beats_bound(1) [OF rr beat, of "1 / 2"] have B: "3 / 8 * beat \<le> rnd (beat / 2)" by simp
    show ?thesis
      unfolding st' fst_conv by (rule clock_progress [OF fr D that(1,2,3) beat res' B])
  qed
  have sbass: "D \<le> fst st' \<or> fst st + min (beat / 4) (D / 8) \<le> fst st'"
    if "0 \<le> fst st" "fst st < D" "rnd (fst st) = fst st"
       "bass_step rnd D prog beat st = Inr st'" for st st'
  proof -
    from bass_step_Inr [OF that(4)] obtain c where
      st': "st' = (rnd (fst st + min (rnd (4 * beat)) (rnd (D - fst st))), fst (snd st) + 1,
                   snd (snd st) @ [(c, min (rnd (4 * beat)) (rnd (D - fst st)), fst st)])"
      by blast
    from beats_bound(1) [OF rr beat, of 4] have B: "3 / 8 * beat \<le> rnd (4 * beat)" by simp
    show ?thesis
      unfolding st' fst_conv by (rule clock_progress [OF fr D that(1,2,3) beat res' B])
  qed
  have spads: "fst st + beat / 4 \<le> fst st'"
    if "0 \<le> fst st" "fst st < D" "pads_step rnd D prog beat st = Inr st'" for st st'
  proof -
    from pads_step_Inr [OF that(3)] obtain x y z where
      st': "st' = (rnd (fst st + rnd (4 * beat)), fst (snd st) + 1,
                   snd (snd st)
                     @ [(x, min (rnd (4 * beat)) (rnd (D - fst st)), fst st),
                        (y, min (rnd (4 * beat)) (rnd (D - fst st)), fst st),
                        (z, min (rnd (4 * beat)) (rnd (D - fst st)), fst st)])"
      by blast
    show ?thesis
      unfolding st' fst_conv by (rule pads_progress(1) [OF rr that(1,2) beat res'])
  qed
  from mel arp bass pads smel sarp sbass spads show ?thesis
    unfolding beat_def by blast
qed

text \<open>The 15 s of the program at 128 bpm, in binary64.\<close>

theorem generators_terminate_witness:
  "(\<exists>r. make_melody f64 DURATION [''C3'', ''G3'', ''A3'', ''F3''] 128 [''C4'', ''D4'', ''E4''] (\<lambda>k. k)
          = Some r)
   \<and> (\<exists>r. make_arpeggio f64 DURATION [''C3'', ''G3'', ''A3'', ''F3''] 128 (\<lambda>k. k) = Some r)
   \<and> (\<exists>r. make_bass f64 DURATION [''C3'', ''G3'', ''A3'', ''F3''] 128 = Some r)
   \<and> (\<exists>r. make_pads f64 DURATION [''C3'', ''G3'', ''A3'', ''F3''] 128 = Some r)"
proof -
  have a: "(0::real) < 128" "0 < DURATION" by (simp_all add: DURATION_def)
  have b: "f64 DURATION = DURATION" by (simp add: DURATION_def f64_table)
  have c: "16 * (1 / 2 ^ 53) * DURATION \<le> f64 (60 / 128)" by (simp add: DURATION_def f64_table)
  from generators_terminate [where rnd = f64 and prog = "[''C3'', ''G3'', ''A3'', ''F3'']"
      and motif = "[''C4'', ''D4'', ''E4'']" and g = "\<lambda>k. k", OF f64_float_rounding a b c]
  show ?thesis by blast
qed

text \<open>
  The bassline at \<open>2\<^sup>6\<^sup>2\<close> bpm in binary64. Four beats are \<open>15 / 2\<^sup>5\<^sup>8\<close> s, less than half
  the distance between 1 and the next float, so a clock that has reached 1 stays there:
  \<^verbatim>\<open>t += dur\<close> no longer changes \<open>t\<close>, the clock never passes 1 and the loop never
  exits.
\<close>

theorem bass_never_returns_at_huge_tempo:
  "make_bass f64 DURATION (chord_progressions ! 0) (2 ^ 62) = None"
proof -
  define prog where "prog = chord_progressions ! 0"
  define beat where "beat = f64 (60 / 2 ^ 62)"
  have pne: "prog \<noteq> []" by (simp add: prog_def chord_progressions_def)
  have B: "f64 (4 * beat) = 15 / 2 ^ 58" by (simp add: beat_def f64_table)
  have "while_loop (\<lambda>st. fst st < DURATION) (bass_step f64 DURATION prog beat) (0, 0, []) = None"
  proof (rule while_loop_diverges [where I = "\<lambda>st. 0 \<le> fst st \<and> fst st \<le> 1"])
    show "0 \<le> fst (0 :: real, 0 :: nat, [] :: event list) \<and> fst (0 :: real, 0 :: nat, [] :: event list) \<le> 1"
      by simp
  next
    fix s :: "real \<times> nat \<times> event list"
    assume I: "0 \<le> fst s \<and> fst s \<le> 1"
    obtain s' where s': "bass_step f64 DURATION prog beat s = Inr s'"
      using bass_step_ok [OF pne, of f64 DURATION beat s]
      by (cases "bass_step f64 DURATION prog beat s") auto
    from bass_step_Inr [OF s'] obtain c where
      eq: "s' = (f64 (fst s + min (f64 (4 * beat)) (f64 (DURATION - fst s))), fst (snd s) + 1,
                 snd (snd s) @ [(c, min (f64 (4 * beat)) (f64 (DURATION - fst s)), fst s)])"
      by blast
    define dur where "dur = min (f64 (4 * beat)) (f64 (DURATION - fst s))"
    have "0 \<le> DURATION - fst s" using I by (simp add: DURATION_def)
    then have "0 \<le> f64 (DURATION - fst s)" by (rule rel_rounding_nonneg [OF f64_rel_rounding])
    then have d0: "0 \<le> dur" by (simp add: dur_def B)
    have d1: "dur \<le> 15 / 2 ^ 58" by (simp add: dur_def B)
    have x0: "0 \<le> fst s + dur" using I d0 by simp
    have x1: "fst s + dur \<le> 1 + 1 / 2 ^ 54" using I d1 by simp
    have "0 \<le> fst s' \<and> fst s' \<le> 1"
      unfolding eq fst_conv dur_def [symmetric] using f64_unit_interval [OF x0 x1] by simp
    moreover have "fst s < DURATION" using I by (simp add: DURATION_def)
    ultimately show "fst s < DURATION
                     \<and> (\<exists>s'. bass_step f64 DURATION prog beat s = Inr s'
                              \<and> 0 \<le> fst s' \<and> fst s' \<le> 1)"
      using s' by blast
  qed
  then show ?thesis by (simp add: make_bass_def prog_def beat_def)
qed

section \<open>Order of the layers\<close>

lemma length_radd: "length (radd rnd xs ds) = min (length xs) (length ds)"
  by (simp add: radd_def)

lemma nth_radd:
  "j < length xs \<Longrightarrow> j < length ds \<Longrightarrow> radd rnd xs ds ! j = rnd (xs ! j + ds ! j)"
  by (simp add: radd_def)

lemma radd_zero:
  assumes "list_all (\<lambda>x. rnd x = x) xs"
  shows "radd rnd xs (replicate (length xs) 0) = xs"
  using assms by (intro nth_equalityI) (simp_all add: length_radd nth_radd list_all_length)

lemma radd_append:
  "length xs = length ys \<Longrightarrow> radd rnd (xs @ xs') (ys @ ys') = radd rnd xs ys @ radd rnd xs' ys'"
  by (simp add: radd_def)

lemma radd_replicate: "radd rnd xs (replicate (length xs) c) = map (\<lambda>x. rnd (x + c)) xs"
  by (rule nth_equalityI) (simp_all add: length_radd nth_radd)

lemma radd_fixed:
  assumes "\<And>x. rnd (rnd x) = rnd x"
  shows "list_all (\<lambda>x. rnd x = x) (radd rnd xs ds)"
  unfolding list_all_length length_radd
  by (intro allI impI) (simp add: nth_radd assms)

lemma split3: "buf = take lo buf @ take len (drop lo buf) @ drop (lo + len) buf"
proof -
  have "drop lo buf = take len (drop lo buf) @ drop len (drop lo buf)"
    by (simp only: append_take_drop_id)
  also have "drop len (drop lo buf) = drop (lo + len) buf"
    by (simp add: add.commute)
  finally have "take lo buf @ drop lo buf = take lo buf @ take len (drop lo buf) @ drop (lo + len) buf"
    by simp
  then show ?thesis by (simp only: append_take_drop_id)
qed

lemma list_all_take_drop:
  "list_all P xs \<Longrightarrow> list_all P (take n xs)" "list_all P xs \<Longrightarrow> list_all P (drop n xs)"
  by (auto simp: list_all_iff dest: in_set_takeD in_set_dropD)

lemma iadd_slice_radd:
  assumes fixed: "list_all (\<lambda>x. rnd x = x) buf"
  shows "iadd_slice rnd buf i0 i1 src =
     (case slice_delta (length buf) i0 i1 src of
        Inl e \<Rightarrow> Inl e
      | Inr d \<Rightarrow> Inr (radd rnd buf d))"
proof -
  define N where "N = length buf"
  define lo where "lo = slice_index i0 N"
  define hi where "hi = slice_index i1 N"
  define len where "len = hi - lo"
  have lo: "lo \<le> N" and hi: "hi \<le> N"
    by (simp_all add: lo_def hi_def slice_index_le)
  then have bound: "lo + len \<le> N" by (simp add: len_def)
  define A where "A = take lo buf"
  define B where "B = take len (drop lo buf)"
  define C where "C = drop (lo + len) buf"
  have buf: "buf = A @ B @ C"
    unfolding A_def B_def C_def by (rule split3)
  have lA: "length A = lo" using lo by (simp add: A_def N_def)
  have lB: "length B = len" using bound by (simp add: B_def N_def)
  have lC: "length C = N - (lo + len)" by (simp add: C_def N_def)
  have fA: "list_all (\<lambda>x. rnd x = x) A" unfolding A_def using fixed by (rule list_all_take_drop)
  have fC: "list_all (\<lambda>x. rnd x = x) C" unfolding C_def using fixed by (rule list_all_take_drop)
  have add3: "radd rnd (A @ B @ C) (replicate lo 0 @ Y @ replicate (N - (lo + len)) 0)
                = A @ radd rnd B Y @ C" if "length Y = len" for Y
  proof -
    have "radd rnd (A @ B @ C) (replicate lo 0 @ Y @ replicate (N - (lo + len)) 0)
            = radd rnd A (replicate lo 0) @ radd rnd B Y @ radd rnd C (replicate (N - (lo + len)) 0)"
      using that lA lB by (simp add: radd_append)
    then show ?thesis using radd_zero [OF fA] radd_zero [OF fC] by (simp add: lA lC)
  qed
  show ?thesis
  proof (cases "length src = len")
    case True
    have "iadd_slice rnd buf i0 i1 src = Inr (A @ radd rnd B src @ C)"
      using True
      by (simp add: iadd_slice_def Let_def N_def [symmetric] lo_def [symmetric] hi_def [symmetric]
            len_def [symmetric] A_def B_def C_def radd_def)
    moreover have "slice_delta (length buf) i0 i1 src
                     = Inr (replicate lo 0 @ src @ replicate (N - (lo + len)) 0)"
      using True
      by (simp add: slice_delta_def Let_def N_def [symmetric] lo_def [symmetric] hi_def [symmetric]
            len_def [symmetric])
    ultimately show ?thesis using add3 [OF True] buf by simp
  next
    case False
    show ?thesis
    proof (cases "length src = 1")
      case True
      have "iadd_slice rnd buf i0 i1 src = Inr (A @ map (\<lambda>x. rnd (x + src ! 0)) B @ C)"
        using True False
        by (simp add: iadd_slice_def Let_def N_def [symmetric] lo_def [symmetric] hi_def [symmetric]
              len_def [symmetric] A_def B_def C_def)
      moreover have "slice_delta (length buf) i0 i1 src
                       = Inr (replicate lo 0 @ replicate len (src ! 0) @ replicate (N - (lo + len)) 0)"
        using True False
        by (simp add: slice_delta_def Let_def N_def [symmetric] lo_def [symmetric] hi_def [symmetric]
              len_def [symmetric])
      moreover have "radd rnd B (replicate len (src ! 0)) = map (\<lambda>x. rnd (x + src ! 0)) B"
        using radd_replicate [of rnd B] by (simp add: lB)
      ultimately show ?thesis using add3 [of "replicate len (src ! 0)"] buf by simp
    next
      case F2: False
      show ?thesis using False F2
        by (simp add: iadd_slice_def slice_delta_def Let_def N_def [symmetric] lo_def [symmetric]
              hi_def [symmetric] len_def [symmetric])
    qed
  qed
qed

lemma slice_delta_length: "slice_delta N i0 i1 src = Inr d \<Longrightarrow> length d = N"
proof -
  assume a: "slice_delta N i0 i1 src = Inr d"
  define lo where "lo = slice_index i0 N"
  define hi where "hi = slice_index i1 N"
  have "lo \<le> N" "hi \<le> N" by (simp_all add: lo_def hi_def slice_index_le)
  then have "lo + (hi - lo) \<le> N" by simp
  with a show ?thesis
    by (auto simp: slice_delta_def Let_def lo_def [symmetric] hi_def [symmetric] split: if_splits)
qed

lemma event_delta_length: "event_delta rnd gen_fn vol N s e = Inr (d, s') \<Longrightarrow> length d = N"
  by (auto simp: event_delta_def Let_def split: sum.splits if_splits prod.splits
      dest: slice_delta_length)

lemma add_event_radd:
  assumes "list_all (\<lambda>x. rnd x = x) buf"
  shows "add_event rnd gen_fn vol (buf, s) e =
     (case event_delta rnd gen_fn vol (length buf) s e of
        Inl err \<Rightarrow> Inl err
      | Inr (d, s') \<Rightarrow> Inr (radd rnd buf d, s'))"
  by (simp add: add_event_def event_delta_def Let_def iadd_slice_radd [OF assms] radd_zero [OF assms]
      split: sum.splits prod.splits)

lemma events_deltas_length:
  "events_deltas rnd gen_fn vol N s es = Inr (ds, s') \<Longrightarrow> \<forall>d \<in> set ds. length d = N"
proof (induction es arbitrary: s ds s')
  case Nil then show ?case by auto
next
  case (Cons e es)
  then show ?case
    by (auto split: sum.splits prod.splits dest: event_delta_length)
qed

lemma radd_all_simps:
  "radd_all rnd [] buf = buf"
  "radd_all rnd (d # ds) buf = radd_all rnd ds (radd rnd buf d)"
  "radd_all rnd (ds @ es) buf = radd_all rnd es (radd_all rnd ds buf)"
  by (simp_all add: radd_all_def)

lemma radd_all_length:
  "\<forall>d \<in> set ds. length d = length buf \<Longrightarrow> length (radd_all rnd ds buf) = length buf"
  by (induction ds arbitrary: buf) (simp_all add: length_radd radd_all_simps)

lemma radd_all_fixed:
  assumes "\<And>x. rnd (rnd x) = rnd x" and "list_all (\<lambda>x. rnd x = x) buf"
  shows "list_all (\<lambda>x. rnd x = x) (radd_all rnd ds buf)"
  using assms(2)
proof (induction ds arbitrary: buf)
  case Nil then show ?case by (simp add: radd_all_simps)
next
  case (Cons d ds)
  show ?case using Cons.IH [OF radd_fixed [of rnd buf d, OF assms(1)]] by (simp add: radd_all_simps)
qed

lemma add_events_deltas:
  assumes idem: "\<And>x. rnd (rnd x) = rnd x" and fixed: "list_all (\<lambda>x. rnd x = x) buf"
  shows "add_events rnd (buf, s) es gen_fn vol =
     (case events_deltas rnd gen_fn vol (length buf) s es of
        Inl err \<Rightarrow> Inl err
      | Inr (ds, s') \<Rightarrow> Inr (radd_all rnd ds buf, s'))"
  using fixed
proof (induction es arbitrary: buf s)
  case Nil show ?case by (simp add: radd_all_simps)
next
  case (Cons e es)
  show ?case
  proof (cases "event_delta rnd gen_fn vol (length buf) s e")
    case (Inl err)
    then show ?thesis by (simp add: add_event_radd [OF Cons.prems])
  next
    case (Inr p)
    obtain d s1 where p: "p = (d, s1)" by (cases p)
    have ld: "length d = length buf" using Inr p by (auto dest: event_delta_length)
    have lr: "length (radd rnd buf d) = length buf" using ld by (simp add: length_radd)
    have fr: "list_all (\<lambda>x. rnd x = x) (radd rnd buf d)" by (rule radd_fixed [OF idem])
    show ?thesis
      using Inr p by (simp add: add_event_radd [OF Cons.prems] Cons.IH [OF fr] lr radd_all_simps
          split: sum.splits prod.splits)
  qed
qed

lemma radd_all_nth:
  assumes "\<forall>d \<in> set ds. length d = length buf" and "j < length buf"
  shows "radd_all rnd ds buf ! j = fold (\<lambda>c x. rnd (x + c)) (map (\<lambda>d. d ! j) ds) (buf ! j)"
  using assms
proof (induction ds arbitrary: buf)
  case Nil show ?case by (simp add: radd_all_simps)
next
  case (Cons d ds)
  have ld: "length d = length buf" using Cons.prems(1) by simp
  have lr: "length (radd rnd buf d) = length buf" using ld by (simp add: length_radd)
  have "radd_all rnd ds (radd rnd buf d) ! j
          = fold (\<lambda>c x. rnd (x + c)) (map (\<lambda>d. d ! j) ds) (radd rnd buf d ! j)"
    using Cons.prems by (intro Cons.IH) (simp_all add: lr)
  then show ?case using Cons.prems(2) ld by (simp add: radd_all_simps nth_radd)
qed

text \<open>
  The error of a float sum taken from left to right: \<open>n\<close> additions lose at most the
  fraction \<open>(1 + u)\<^sup>n - 1\<close> of the sum of the absolute values.
\<close>

lemma rounded_sum_error:
  assumes rr: "rel_rounding u rnd"
  shows "\<bar>fold (\<lambda>c x. rnd (x + c)) cs x - (x + sum_list cs)\<bar>
           \<le> ((1 + u) ^ length cs - 1) * (\<bar>x\<bar> + sum_list (map abs cs))"
proof (induction cs arbitrary: x)
  case Nil show ?case by simp
next
  case (Cons c cs)
  have u0: "0 \<le> u" using rr by (simp add: rel_rounding_def)
  define y where "y = rnd (x + c)"
  define P where "P = (1 + u) ^ length cs"
  define a where "a = \<bar>x\<bar> + \<bar>c\<bar>"
  define T where "T = sum_list (map abs cs)"
  have P1: "1 \<le> P" unfolding P_def using u0 by (intro one_le_power) simp
  have a0: "0 \<le> a" by (simp add: a_def)
  have T0: "0 \<le> T" unfolding T_def by (rule sum_list_nonneg) auto
  have e1: "\<bar>y - (x + c)\<bar> \<le> u * \<bar>x + c\<bar>"
    using rr by (simp add: rel_rounding_def y_def)
  have xc: "\<bar>x + c\<bar> \<le> a" by (simp add: a_def)
  have e2: "\<bar>y - (x + c)\<bar> \<le> u * a"
    using e1 mult_left_mono [OF xc u0] by linarith
  have ya: "\<bar>y\<bar> \<le> (1 + u) * a"
  proof -
    have "\<bar>y\<bar> \<le> \<bar>y - (x + c)\<bar> + \<bar>x + c\<bar>" by linarith
    also have "\<dots> \<le> u * a + a" using e2 xc by linarith
    finally show ?thesis by (simp add: algebra_simps)
  qed
  have ih: "\<bar>fold (\<lambda>c x. rnd (x + c)) cs y - (y + sum_list cs)\<bar> \<le> (P - 1) * (\<bar>y\<bar> + T)"
    unfolding P_def T_def by (rule Cons.IH)
  have m1: "(P - 1) * (\<bar>y\<bar> + T) \<le> (P - 1) * ((1 + u) * a + T)"
    using ya P1 by (intro mult_left_mono) simp_all
  have PuT: "0 \<le> P * u * T" using P1 u0 T0 by simp
  have alg: "(P - 1) * ((1 + u) * a + T) + u * a + P * u * T = (P * (1 + u) - 1) * (a + T)"
    by (simp add: algebra_simps)
  have "\<bar>fold (\<lambda>c x. rnd (x + c)) cs y - (x + c + sum_list cs)\<bar>
          \<le> \<bar>fold (\<lambda>c x. rnd (x + c)) cs y - (y + sum_list cs)\<bar> + \<bar>y - (x + c)\<bar>"
    by linarith
  also have "\<dots> \<le> (P - 1) * ((1 + u) * a + T) + u * a"
    using ih m1 e2 by linarith
  also have "\<dots> \<le> (P * (1 + u) - 1) * (a + T)"
    using alg PuT by linarith
  finally have "\<bar>fold (\<lambda>c x. rnd (x + c)) cs y - (x + c + sum_list cs)\<bar>
                  \<le> (P * (1 + u) - 1) * (a + T)" .
  then show ?case
    by (simp add: y_def P_def a_def T_def algebra_simps)
qed

text \<open>Closures that do not use the generator state.\<close>

lemma state_free_event_delta:
  assumes "state_free gen_fn"
  shows "event_delta rnd gen_fn vol N s e =
           (case event_delta rnd gen_fn vol N s0 e of Inl err \<Rightarrow> Inl err | Inr (d, _) \<Rightarrow> Inr (d, s))"
proof -
  from assms obtain f where
    f: "\<And>s n d. gen_fn s n d = (case f n d of Inl e \<Rightarrow> Inl e | Inr w \<Rightarrow> Inr (w, s))"
    unfolding state_free_def by blast
  show ?thesis
    unfolding event_delta_def Let_def f [of s] f [of s0]
    by (simp split: sum.splits)
qed

lemma state_free_events_deltas:
  assumes "state_free gen_fn"
  shows "events_deltas rnd gen_fn vol N s es =
           (case events_deltas rnd gen_fn vol N s0 es of Inl err \<Rightarrow> Inl err | Inr (ds, _) \<Rightarrow> Inr (ds, s))"
proof (induction es)
  case Nil show ?case by simp
next
  case (Cons e es)
  have same: "event_delta rnd gen_fn vol N s0 e = Inr (d, t) \<Longrightarrow> t = s0" for d t
    using state_free_event_delta [OF assms, of rnd vol N s0 e s0] by (auto split: sum.splits)
  have e1: "event_delta rnd gen_fn vol N s e =
           (case event_delta rnd gen_fn vol N s0 e of Inl err \<Rightarrow> Inl err | Inr (d, _) \<Rightarrow> Inr (d, s))"
    by (rule state_free_event_delta [OF assms])
  show ?case
    unfolding events_deltas.simps e1 using Cons.IH same
    by (auto split: sum.splits prod.splits)
qed

lemma pure_layer_deltas:
  assumes "\<not> impure l"
  shows "layer_deltas rnd N s l =
           (case layer_deltas rnd N s0 l of Inl err \<Rightarrow> Inl err | Inr (ds, _) \<Rightarrow> Inr (ds, s))"
  using assms unfolding impure_def layer_deltas_def
  by (simp add: state_free_events_deltas [of _ _ _ _ s _ s0])

lemma pure_layer_facts:
  assumes "\<not> impure l"
  shows "layer_ds rnd N s l = layer_ds rnd N s0 l"
    and "layer_ok rnd N s l = layer_ok rnd N s0 l"
    and "layer_ok rnd N s l \<Longrightarrow> layer_state rnd N s l = s"
  using pure_layer_deltas [OF assms, of rnd N s s0] pure_layer_deltas [OF assms, of rnd N s s]
  by (auto simp: layer_ds_def layer_ok_def layer_state_def split: sum.splits prod.splits)

lemma layer_deltas_length:
  "layer_deltas rnd N s l = Inr (ds, s1) \<Longrightarrow> \<forall>d \<in> set ds. length d = N"
  unfolding layer_deltas_def by (rule events_deltas_length)

lemma layer_ds_length: "d \<in> set (layer_ds rnd N s l) \<Longrightarrow> length d = N"
proof (cases "layer_deltas rnd N s l")
  case (Inl err)
  assume "d \<in> set (layer_ds rnd N s l)"
  then show ?thesis using Inl by (simp add: layer_ds_def)
next
  case (Inr p)
  assume d: "d \<in> set (layer_ds rnd N s l)"
  obtain ds s1 where p: "p = (ds, s1)" by (cases p)
  have "layer_deltas rnd N s l = Inr (ds, s1)" using Inr p by simp
  from layer_deltas_length [OF this] d Inr p show ?thesis by (simp add: layer_ds_def)
qed

lemma mix_deltas_length: "\<forall>d \<in> set (mix_deltas rnd N s ls). length d = N"
proof
  fix d assume "d \<in> set (mix_deltas rnd N s ls)"
  then obtain l where "d \<in> set (layer_ds rnd N s l)" by (auto simp: mix_deltas_def)
  then show "length d = N" by (rule layer_ds_length)
qed

lemma mix_deltas_simps:
  "mix_deltas rnd N s [] = []"
  "mix_deltas rnd N s (l # ls) = layer_ds rnd N s l @ mix_deltas rnd N s ls"
  by (simp_all add: mix_deltas_def)

lemma mix_layers_Cons:
  assumes "\<And>x. rnd (rnd x) = rnd x" and "list_all (\<lambda>x. rnd x = x) buf"
  shows "mix_layers rnd (buf, s) (l # ls) =
     (case layer_deltas rnd (length buf) s l of
        Inl err \<Rightarrow> Inl err
      | Inr (ds, s1) \<Rightarrow> mix_layers rnd (radd_all rnd ds buf, s1) ls)"
  by (simp add: add_events_deltas [OF assms] layer_deltas_def split: sum.splits prod.splits)

lemma mix_layers_pure:
  assumes idem: "\<And>x. rnd (rnd x) = rnd x"
      and "list_all (\<lambda>x. rnd x = x) buf"
      and "\<forall>l \<in> set ls. \<not> impure l"
      and "mix_layers rnd (buf, s) ls = Inr (b, s')"
  shows "s' = s \<and> (\<forall>l \<in> set ls. layer_ok rnd (length buf) s l)
         \<and> b = radd_all rnd (mix_deltas rnd (length buf) s ls) buf"
  using assms(2-)
proof (induction ls arbitrary: buf)
  case Nil then show ?case by (simp add: mix_deltas_simps radd_all_simps)
next
  case (Cons l ls)
  define N where "N = length buf"
  from Cons.prems(3) obtain ds s1 where
    ld: "layer_deltas rnd N s l = Inr (ds, s1)" and
    rest: "mix_layers rnd (radd_all rnd ds buf, s1) ls = Inr (b, s')"
    unfolding mix_layers_Cons [OF idem Cons.prems(1)] N_def by (auto split: sum.splits prod.splits)
  have pl: "\<not> impure l" using Cons.prems(2) by simp
  have ok: "layer_ok rnd N s l" using ld by (simp add: layer_ok_def)
  have lds: "layer_ds rnd N s l = ds" using ld by (simp add: layer_ds_def)
  have s1: "s1 = s" using pure_layer_facts(3) [OF pl, of rnd N s] ld ok
    by (simp add: layer_state_def)
  have len: "\<forall>d \<in> set ds. length d = length buf"
    using layer_deltas_length [OF ld] by (simp add: N_def)
  have lv: "length (radd_all rnd ds buf) = N" using radd_all_length [OF len] by (simp add: N_def)
  have fx: "list_all (\<lambda>x. rnd x = x) (radd_all rnd ds buf)"
    using idem Cons.prems(1) by (rule radd_all_fixed)
  have pls: "\<forall>l \<in> set ls. \<not> impure l" using Cons.prems(2) by simp
  from Cons.IH [OF fx pls rest [unfolded s1], unfolded lv]
  have ih: "s' = s" "\<forall>l \<in> set ls. layer_ok rnd N s l"
    "b = radd_all rnd (mix_deltas rnd N s ls) (radd_all rnd ds buf)"
    by blast+
  show ?case
    unfolding N_def [symmetric] using ih ok lds by (simp add: mix_deltas_simps radd_all_simps)
qed

lemma mix_layers_closed:
  assumes idem: "\<And>x. rnd (rnd x) = rnd x"
      and "list_all (\<lambda>x. rnd x = x) buf"
      and "length (filter impure ls) \<le> 1"
      and "mix_layers rnd (buf, s) ls = Inr (b, s')"
  shows "(\<forall>l \<in> set ls. layer_ok rnd (length buf) s l)
         \<and> b = radd_all rnd (mix_deltas rnd (length buf) s ls) buf
         \<and> (\<forall>l \<in> set ls. impure l \<longrightarrow> s' = layer_state rnd (length buf) s l)
         \<and> ((\<forall>l \<in> set ls. \<not> impure l) \<longrightarrow> s' = s)"
  using assms(2-)
proof (induction ls arbitrary: buf s)
  case Nil then show ?case by (simp add: mix_deltas_simps radd_all_simps)
next
  case (Cons l ls)
  define N where "N = length buf"
  from Cons.prems(3) obtain ds s1 where
    ld: "layer_deltas rnd N s l = Inr (ds, s1)" and
    rest: "mix_layers rnd (radd_all rnd ds buf, s1) ls = Inr (b, s')"
    unfolding mix_layers_Cons [OF idem Cons.prems(1)] N_def by (auto split: sum.splits prod.splits)
  have ok: "layer_ok rnd N s l" using ld by (simp add: layer_ok_def)
  have lds: "layer_ds rnd N s l = ds" using ld by (simp add: layer_ds_def)
  have st: "layer_state rnd N s l = s1" using ld by (simp add: layer_state_def)
  have len: "\<forall>d \<in> set ds. length d = length buf"
    using layer_deltas_length [OF ld] by (simp add: N_def)
  have lv: "length (radd_all rnd ds buf) = N" using radd_all_length [OF len] by (simp add: N_def)
  have fx: "list_all (\<lambda>x. rnd x = x) (radd_all rnd ds buf)"
    using idem Cons.prems(1) by (rule radd_all_fixed)
  show ?case
  proof (cases "impure l")
    case True
    then have pure: "\<forall>l \<in> set ls. \<not> impure l"
      using Cons.prems(2) by (simp add: filter_empty_conv)
    from mix_layers_pure [OF idem fx pure rest, unfolded lv]
    have r: "s' = s1" "\<forall>l \<in> set ls. layer_ok rnd N s1 l"
      "b = radd_all rnd (mix_deltas rnd N s1 ls) (radd_all rnd ds buf)"
      by blast+
    have oks: "\<forall>l \<in> set ls. layer_ok rnd N s l"
      using r(2) pure pure_layer_facts(2) [of _ rnd N s s1] by blast
    have "map (layer_ds rnd N s1) ls = map (layer_ds rnd N s) ls"
      using pure pure_layer_facts(1) [of _ rnd N s1 s] by (intro map_cong) auto
    then have eqs: "mix_deltas rnd N s1 ls = mix_deltas rnd N s ls"
      unfolding mix_deltas_def by (rule arg_cong)
    have b: "b = radd_all rnd (mix_deltas rnd N s (l # ls)) buf"
      using r(3) eqs lds by (simp add: mix_deltas_simps radd_all_simps)
    show ?thesis
      unfolding N_def [symmetric]
      using True pure r(1) oks ok b st by auto
  next
    case False
    then have cnt: "length (filter impure ls) \<le> 1" using Cons.prems(2) by simp
    have s1: "s1 = s" using pure_layer_facts(3) [OF False, of rnd N s] ok st by simp
    from Cons.IH [OF fx cnt rest [unfolded s1], unfolded lv]
    have ih: "\<forall>l \<in> set ls. layer_ok rnd N s l"
      "b = radd_all rnd (mix_deltas rnd N s ls) (radd_all rnd ds buf)"
      "\<forall>l \<in> set ls. impure l \<longrightarrow> s' = layer_state rnd N s l"
      "(\<forall>l \<in> set ls. \<not> impure l) \<longrightarrow> s' = s"
      by blast+
    have b: "b = radd_all rnd (mix_deltas rnd N s (l # ls)) buf"
      using ih(2) lds by (simp add: mix_deltas_simps radd_all_simps)
    show ?thesis
      unfolding N_def [symmetric]
      using False ih(1,3,4) ok b by auto
  qed
qed

lemma mix_layers_succeeds:
  assumes idem: "\<And>x. rnd (rnd x) = rnd x"
      and "list_all (\<lambda>x. rnd x = x) buf"
      and "length (filter impure ls) \<le> 1"
      and "\<forall>l \<in> set ls. layer_ok rnd (length buf) s l"
  shows "\<exists>r. mix_layers rnd (buf, s) ls = Inr r"
  using assms(2-)
proof (induction ls arbitrary: buf s)
  case Nil then show ?case by simp
next
  case (Cons l ls)
  define N where "N = length buf"
  from Cons.prems(3) obtain ds s1 where ld: "layer_deltas rnd N s l = Inr (ds, s1)"
    by (auto simp: layer_ok_def N_def split: sum.splits)
  have len: "\<forall>d \<in> set ds. length d = length buf"
    using layer_deltas_length [OF ld] by (simp add: N_def)
  have lv: "length (radd_all rnd ds buf) = length buf" using radd_all_length [OF len] .
  have fx: "list_all (\<lambda>x. rnd x = x) (radd_all rnd ds buf)"
    using idem Cons.prems(1) by (rule radd_all_fixed)
  have cnt: "length (filter impure ls) \<le> 1" using Cons.prems(2) by (simp split: if_splits)
  have oks: "\<forall>l \<in> set ls. layer_ok rnd (length (radd_all rnd ds buf)) s1 l"
  proof (cases "impure l")
    case True
    then have pure: "\<forall>l \<in> set ls. \<not> impure l"
      using Cons.prems(2) by (simp add: filter_empty_conv)
    then show ?thesis
      using Cons.prems(3) pure_layer_facts(2) [of _ rnd "length buf" s1 s] lv by auto
  next
    case False
    have "s1 = s" using pure_layer_facts(3) [OF False, of rnd N s] ld
      by (simp add: layer_ok_def layer_state_def)
    then show ?thesis using Cons.prems(3) lv by simp
  qed
  from Cons.IH [OF fx cnt oks] obtain r where "mix_layers rnd (radd_all rnd ds buf, s1) ls = Inr r" ..
  then show ?case unfolding mix_layers_Cons [OF idem Cons.prems(1)] using ld by (simp add: N_def)
qed

lemma mset_mix_deltas:
  assumes "mset ls' = mset ls"
  shows "mset (mix_deltas rnd N s ls') = mset (mix_deltas rnd N s ls)"
proof -
  have c: "mset (concat xss) = sum_list (map mset xss)" for xss :: "real list list list"
    by (induction xss) simp_all
  have "mset (map (\<lambda>l. mset (layer_ds rnd N s l)) ls') = mset (map (\<lambda>l. mset (layer_ds rnd N s l)) ls)"
    using assms by simp
  then have "sum_list (map (\<lambda>l. mset (layer_ds rnd N s l)) ls')
               = sum_list (map (\<lambda>l. mset (layer_ds rnd N s l)) ls)"
    by (metis sum_mset_sum_list)
  then show ?thesis by (simp add: mix_deltas_def c comp_def)
qed

lemma mset_sums:
  fixes f :: "real list \<Rightarrow> real"
  assumes "mset ds' = mset ds"
  shows "sum_list (map f ds') = sum_list (map f ds)" and "length ds' = length ds"
proof -
  have "mset (map f ds') = mset (map f ds)" using assms by simp
  then show "sum_list (map f ds') = sum_list (map f ds)" by (metis sum_mset_sum_list)
  show "length ds' = length ds" using assms by (rule mset_eq_length)
qed

text \<open>
  Two orders of the layers: both succeed, with the same generator state, and sample by
  sample the two buffers are within twice the summation error of each other.
\<close>

lemma mix_layers_permuted:
  assumes rr: "rel_rounding u rnd"
      and idem: "\<And>x. rnd (rnd x) = rnd x"
      and fixed: "list_all (\<lambda>x. rnd x = x) buf"
      and perm: "mset ls' = mset ls"
      and cnt: "length (filter impure ls) \<le> 1"
      and res: "mix_layers rnd (buf, s) ls = Inr (b, s1)"
  shows "\<exists>b'. mix_layers rnd (buf, s) ls' = Inr (b', s1) \<and> length b' = length b
           \<and> length b = length buf
           \<and> (\<forall>j < length b. \<bar>b' ! j - b ! j\<bar>
                \<le> 2 * ((1 + u) ^ length (mix_deltas rnd (length buf) s ls) - 1)
                    * sample_mass buf (mix_deltas rnd (length buf) s ls) j)"
proof -
  define N where "N = length buf"
  define ds where "ds = mix_deltas rnd N s ls"
  define ds' where "ds' = mix_deltas rnd N s ls'"
  have set_eq: "set ls' = set ls" using perm by (rule mset_eq_setD)
  have "mset (filter impure ls') = mset (filter impure ls)" using perm by simp
  then have "length (filter impure ls') = length (filter impure ls)"
    by (rule mset_eq_length)
  then have cnt': "length (filter impure ls') \<le> 1" using cnt by simp
  note c = mix_layers_closed [OF idem fixed cnt res, folded N_def, folded ds_def]
  have "\<forall>l \<in> set ls'. layer_ok rnd (length buf) s l" using c set_eq by (simp add: N_def)
  from mix_layers_succeeds [OF idem fixed cnt' this] obtain b' s2 where
    res': "mix_layers rnd (buf, s) ls' = Inr (b', s2)" by auto
  note c' = mix_layers_closed [OF idem fixed cnt' res', folded N_def, folded ds'_def]
  have b: "b = radd_all rnd ds buf" and b': "b' = radd_all rnd ds' buf" using c c' by simp_all
  have lds: "\<forall>d \<in> set ds. length d = length buf" and lds': "\<forall>d \<in> set ds'. length d = length buf"
    unfolding ds_def ds'_def N_def by (rule mix_deltas_length)+
  have lb: "length b = N" and lb': "length b' = N"
    unfolding b b' N_def using lds lds' by (simp_all add: radd_all_length)
  have ms: "mset ds' = mset ds" unfolding ds_def ds'_def using perm by (rule mset_mix_deltas)
  have s2: "s2 = s1"
  proof (cases "\<exists>l \<in> set ls. impure l")
    case True
    then obtain l where "l \<in> set ls" "impure l" by blast
    then show ?thesis using c c' set_eq by simp
  next
    case False
    then show ?thesis using c c' set_eq by simp
  qed
  have bound: "\<bar>b' ! j - b ! j\<bar> \<le> 2 * ((1 + u) ^ length ds - 1) * sample_mass buf ds j"
    if j: "j < N" for j
  proof -
    define E where "E = buf ! j + sum_list (map (\<lambda>d. d ! j) ds)"
    define M where "M = \<bar>buf ! j\<bar> + sum_list (map abs (map (\<lambda>d. d ! j) ds))"
    have M: "M = sample_mass buf ds j" by (simp add: M_def sample_mass_def comp_def)
    have E': "E = buf ! j + sum_list (map (\<lambda>d. d ! j) ds')"
      unfolding E_def using mset_sums(1) [OF ms, of "\<lambda>d. d ! j"] by simp
    have M': "M = \<bar>buf ! j\<bar> + sum_list (map abs (map (\<lambda>d. d ! j) ds'))"
      unfolding M_def using mset_sums(1) [OF ms, of "\<lambda>d. \<bar>d ! j\<bar>"] by (simp add: comp_def)
    have n': "length ds' = length ds" using ms by (rule mset_sums(2))
    have bj: "b ! j = fold (\<lambda>c x. rnd (x + c)) (map (\<lambda>d. d ! j) ds) (buf ! j)"
      unfolding b using lds j by (intro radd_all_nth) (simp_all add: N_def)
    have bj': "b' ! j = fold (\<lambda>c x. rnd (x + c)) (map (\<lambda>d. d ! j) ds') (buf ! j)"
      unfolding b' using lds' j by (intro radd_all_nth) (simp_all add: N_def)
    have e: "\<bar>b ! j - E\<bar> \<le> ((1 + u) ^ length ds - 1) * M"
      using rounded_sum_error [OF rr, of "map (\<lambda>d. d ! j) ds" "buf ! j"]
      by (simp add: bj E_def M_def)
    have e': "\<bar>b' ! j - E\<bar> \<le> ((1 + u) ^ length ds - 1) * M"
      using rounded_sum_error [OF rr, of "map (\<lambda>d. d ! j) ds'" "buf ! j"]
      by (simp add: bj' E' M' n')
    have "\<bar>b' ! j - b ! j\<bar> \<le> \<bar>b' ! j - E\<bar> + \<bar>b ! j - E\<bar>" by linarith
    also have "\<dots> \<le> 2 * (((1 + u) ^ length ds - 1) * M)" using e e' by linarith
    finally show ?thesis unfolding M by (simp only: mult.assoc)
  qed
  show ?thesis
    using res' s2 lb lb' bound by (auto simp: N_def ds_def)
qed

lemma state_free_tonal: "state_free (tonal_fn rnd decay)"
  unfolding state_free_def
  by (rule exI [of _ "\<lambda>n d. case getitem note_freqs n of Inl e \<Rightarrow> Inl e
                                | Inr freq \<Rightarrow> sine_wave rnd (rnd freq) d decay"])
     (simp add: tonal_fn_def split: sum.splits)

lemma state_free_click: "state_free click"
  unfolding state_free_def
  by (rule exI [of _ "\<lambda>n d. Inr [1]"]) (simp add: click_def)

lemma layers_impure:
  "length (filter impure (layers rnd melody arpeggio bassline pads drums)) \<le> 1"
  by (simp add: layers_def impure_def state_free_tonal)

text \<open>
  Claim C7, as amended. The order of the layers does not change the buffer beyond the
  rounding of the additions. Of the five layers of the script only the drums use the
  NumPy generator. For every list of layers of which at most one uses it, mixed into a
  buffer of floats: if one order is mixed without a fault, so is every permutation of it;
  the generator is left in the same state; the buffers have the same length; and each
  sample of one differs from that sample of the other by at most
  \<open>2 ((1 + u)\<^sup>n - 1)\<close> times the mass of the sample, where \<open>n\<close> is the number of events, \<open>u\<close>
  the relative error of an operation and the mass the sum of the absolute values of the
  initial sample and of everything added to it. In exact arithmetic (\<open>u = 0\<close>) the two
  buffers are equal; in binary64 they need not be.
\<close>

theorem mixing_order_tolerance:
  assumes "float_rounding u rnd"
      and "list_all (\<lambda>x. rnd x = x) buf"
      and "length (filter impure ls0) \<le> 1"
      and "mset ls = mset ls0"
      and "mix_layers rnd (buf, g) ls0 = Inr (b, g')"
  shows "length (filter impure (layers rnd melody arpeggio bassline pads drums)) \<le> 1
         \<and> (\<exists>b'. mix_layers rnd (buf, g) ls = Inr (b', g') \<and> length b' = length b
               \<and> (\<forall>j < length b. \<bar>b' ! j - b ! j\<bar>
                    \<le> 2 * ((1 + u) ^ length (mix_deltas rnd (length buf) g ls0) - 1)
                        * sample_mass buf (mix_deltas rnd (length buf) g ls0) j))"
proof -
  have rr: "rel_rounding u rnd" and idem: "\<And>x. rnd (rnd x) = rnd x"
    using assms(1) by (simp_all add: float_rounding_def)
  from mix_layers_permuted [OF rr idem assms(2) assms(4) assms(3) assms(5)]
  show ?thesis using layers_impure [of rnd melody arpeggio bassline pads drums] by blast
qed

text \<open>
  In binary64: three layers that each put one sample on index 0, of amplitudes 0.1, 0.2
  and 0.3. In this order the sample becomes 0.6000000000000001, in the reverse order
  0.6; the difference is within the bound.
\<close>

theorem mixing_order_tolerance_witness:
  "float_rounding (1 / 2 ^ 53) f64
   \<and> mix_layers f64 ([0], ())
        [([(''a'', 1, 0)], click, 1 / 10), ([(''b'', 1, 0)], click, 1 / 5),
         ([(''c'', 1, 0)], click, 3 / 10)]
       = Inr ([1351079888211149 / 2 ^ 51], ())
   \<and> (\<exists>b'. mix_layers f64 ([0], ())
              [([(''c'', 1, 0)], click, 3 / 10), ([(''b'', 1, 0)], click, 1 / 5),
               ([(''a'', 1, 0)], click, 1 / 10)]
             = Inr (b', ())
          \<and> b' = [5404319552844595 / 2 ^ 53]
          \<and> \<bar>b' ! 0 - 1351079888211149 / 2 ^ 51\<bar>
              \<le> 2 * ((1 + 1 / 2 ^ 53) ^ 3 - 1)
                  * (3602879701896397 / 2 ^ 55 + 3602879701896397 / 2 ^ 54 + 5404319552844595 / 2 ^ 54))"
proof -
  define ls0 :: "unit layer list" where
    "ls0 = [([(''a'', 1, 0)], click, 1 / 10), ([(''b'', 1, 0)], click, 1 / 5),
            ([(''c'', 1, 0)], click, 3 / 10)]"
  define ls :: "unit layer list" where
    "ls = [([(''c'', 1, 0)], click, 3 / 10), ([(''b'', 1, 0)], click, 1 / 5),
           ([(''a'', 1, 0)], click, 1 / 10)]"
  have fixed: "list_all (\<lambda>x. f64 x = x) [0]" by (simp add: f64_table)
  have cnt: "length (filter impure ls0) \<le> 1"
    by (simp add: ls0_def impure_def state_free_click)
  have perm: "mset ls = mset ls0" by (simp add: ls_def ls0_def add_mset_commute)
  have run: "mix_layers f64 ([0], ()) ls0 = Inr ([1351079888211149 / 2 ^ 51], ())"
    by (simp add: ls0_def add_event_def click_def py_int_def SR_def ev_start_def ev_name_def
          ev_dur_def iadd_slice_def slice_index_def slice_upto_def Let_def f64_table)
  have run': "mix_layers f64 ([0], ()) ls = Inr ([5404319552844595 / 2 ^ 53], ())"
    by (simp add: ls_def add_event_def click_def py_int_def SR_def ev_start_def ev_name_def
          ev_dur_def iadd_slice_def slice_index_def slice_upto_def Let_def f64_table)
  have md: "mix_deltas f64 (length [0 :: real]) () ls0
              = [[3602879701896397 / 2 ^ 55], [3602879701896397 / 2 ^ 54], [5404319552844595 / 2 ^ 54]]"
    by (simp add: ls0_def mix_deltas_def layer_ds_def layer_deltas_def event_delta_def click_def
          py_int_def SR_def ev_start_def ev_name_def ev_dur_def slice_delta_def slice_index_def
          slice_upto_def Let_def f64_table)
  from mixing_order_tolerance [OF f64_float_rounding fixed cnt perm run]
  obtain b' where r: "mix_layers f64 ([0], ()) ls = Inr (b', ())"
    and bd: "\<forall>j < length [1351079888211149 / 2 ^ 51 :: real]. \<bar>b' ! j - [1351079888211149 / 2 ^ 51] ! j\<bar>
               \<le> 2 * ((1 + 1 / 2 ^ 53) ^ length (mix_deltas f64 (length [0 :: real]) () ls0) - 1)
                   * sample_mass [0] (mix_deltas f64 (length [0 :: real]) () ls0) j"
    by blast
  have b': "b' = [5404319552844595 / 2 ^ 53]" using r run' by simp
  have "\<bar>b' ! 0 - 1351079888211149 / 2 ^ 51\<bar>
          \<le> 2 * ((1 + 1 / 2 ^ 53) ^ 3 - 1)
              * (3602879701896397 / 2 ^ 55 + 3602879701896397 / 2 ^ 54 + 5404319552844595 / 2 ^ 54)"
    using bd [rule_format, of 0] unfolding md b' by (simp add: sample_mass_def power3_eq_cube)
  then show ?thesis
    using f64_float_rounding run r b' unfolding ls_def ls0_def by blast
qed

text \<open>
  The two orders give different buffers in binary64: 0.1 + 0.2 + 0.3 from left to right
  is 0.6000000000000001 and 0.3 + 0.2 + 0.1 is 0.6.
\<close>

theorem mixing_order_changes_samples:
  "mix_layers f64 ([0], ())
     [([(''a'', 1, 0)], click, 1 / 10), ([(''b'', 1, 0)], click, 1 / 5),
      ([(''c'', 1, 0)], click, 3 / 10)]
     = Inr ([5404319552844596 / 2 ^ 53], ())
   \<and> mix_layers f64 ([0], ())
       [([(''c'', 1, 0)], click, 3 / 10), ([(''b'', 1, 0)], click, 1 / 5),
        ([(''a'', 1, 0)], click, 1 / 10)]
       = Inr ([5404319552844595 / 2 ^ 53], ())
   \<and> mix_layers f64 ([0], ())
       [([(''a'', 1, 0)], click, 1 / 10), ([(''b'', 1, 0)], click, 1 / 5),
        ([(''c'', 1, 0)], click, 3 / 10)]
     \<noteq> mix_layers f64 ([0], ())
       [([(''c'', 1, 0)], click, 3 / 10), ([(''b'', 1, 0)], click, 1 / 5),
        ([(''a'', 1, 0)], click, 1 / 10)]"
  by (simp add: add_event_def click_def py_int_def SR_def ev_start_def ev_name_def
        ev_dur_def iadd_slice_def slice_index_def slice_upto_def Let_def f64_table)

end
